theory Spec2Isabelle
  imports Main "HOL-Library.AList"
begin

section \<open>Data model of \<^verbatim>\<open>simple-runner.ts\<close>\<close>

text \<open>
  The runner works on the task types of the build tool: a task has an id, a target
  descriptor and overrides (both opaque to the runner, hence type parameters), and a
  task graph has the three fields \<^verbatim>\<open>tasks\<close>, \<^verbatim>\<open>dependencies\<close> and \<^verbatim>\<open>roots\<close>.
  A JavaScript object is an association list in the enumeration order of its keys;
  the field \<^verbatim>\<open>id\<close> is called \<open>task_id\<close>, since \<open>id\<close> is the identity function of HOL.
  The only statuses the runner writes are \<^verbatim>\<open>'success'\<close>, \<^verbatim>\<open>'failure'\<close> and \<^verbatim>\<open>'skipped'\<close>.
\<close>

datatype TaskStatus = Success | Failure | Skipped

record ('t, 'o) Task =
  task_id :: string
  target :: 't
  overrides :: 'o

record ('t, 'o) TaskGraph =
  tasks :: "(string \<times> ('t, 'o) Task) list"
  dependencies :: "(string \<times> string list) list"
  roots :: "string list"

text \<open>
  Everything that a \<^verbatim>\<open>throw\<close> or a rejected promise can carry: the \<^verbatim>\<open>TypeError\<close> of
  the language itself (a property read on \<^verbatim>\<open>undefined\<close>) and whatever the executor raises.
\<close>

datatype error = TypeError | ExecutorError string

text \<open>
  The executor adapter \<^verbatim>\<open>runExecutor\<close> is a capability of the environment. A call
  either rejects or resolves to an async iterator; an iterator is the list of what its
  successive \<^verbatim>\<open>next()\<close> calls settle to, each a rejection or an iterator result
  \<^verbatim>\<open>{ value, done }\<close>. The runner reads only the \<^verbatim>\<open>success\<close> flag of a value, so a value is
  that flag (whether it is truthy), and \<open>None\<close> is the value \<^verbatim>\<open>undefined\<close>. Once the list is used up the iterator is
  finished: \<^verbatim>\<open>next()\<close> resolves to \<^verbatim>\<open>{ value: undefined, done: true }\<close>.
  The executor may depend on and change the outside world \<open>'w\<close>; the executor context
  built at the start of \<^verbatim>\<open>runAllTasks\<close> is part of that world.
\<close>

datatype IteratorResult = IteratorResult (ev_value: "bool option") (ev_done: bool)

type_synonym iterator = "(error + IteratorResult) list"

type_synonym ('t, 'o, 'w) executor = "'w \<Rightarrow> 't \<Rightarrow> 'o \<Rightarrow> (error + iterator) \<times> 'w"

fun iter_next :: "iterator \<Rightarrow> (error + IteratorResult) \<times> iterator" where
  "iter_next [] = (Inr (IteratorResult None True), [])"
| "iter_next (r # rs) = (r, rs)"

text \<open>
  What the runner does to its surroundings, in the order it does it: the calls of the
  life cycle reporter, of the executor and of \<^verbatim>\<open>logger.error\<close>.
\<close>

datatype ('t, 'o) event =
    StartTasks "('t, 'o) Task"
  | ScheduleTask "('t, 'o) Task"
  | RunExecutor "('t, 'o) Task"
  | LoggerError error
  | EndTasks nat TaskStatus "('t, 'o) Task"

section \<open>The library functions the runner calls\<close>

text \<open>
  \<^verbatim>\<open>_.difference\<close>, \<^verbatim>\<open>_.zipObject\<close> and \<^verbatim>\<open>Object.keys\<close>. \<^verbatim>\<open>_.difference\<close> of a value
  that is not an array (here: the dependency list of a task that has none declared,
  \<^verbatim>\<open>undefined\<close>) is the empty array. \<^verbatim>\<open>_.zipObject\<close> assigns the properties one after the
  other, so a repeated key keeps its first position and its last value.
\<close>

definition difference :: "'a list option \<Rightarrow> 'a list \<Rightarrow> 'a list" where
  "difference array vals =
     (case array of None \<Rightarrow> [] | Some xs \<Rightarrow> filter (\<lambda>x. x \<notin> set vals) xs)"

definition zipObject :: "string list \<Rightarrow> 'a list \<Rightarrow> (string \<times> 'a) list" where
  "zipObject props vals = fold (\<lambda>(k, v) object. AList.update k v object) (zip props vals) []"

definition Object_keys :: "(string \<times> 'a) list \<Rightarrow> string list" where
  "Object_keys object = map fst object"

subsection \<open>Property paths\<close>

text \<open>
  \<^verbatim>\<open>_.omit(object, paths)\<close> of lodash 4.17 reads each of its strings as a property path. A string is the
  name of one property when it consists of word characters, or does not look like a path
  (\<^verbatim>\<open>reIsDeepProp\<close>: it has no dot and no bracket pair around a bracket-free or a quoted
  text), or is a key of the object (\<^verbatim>\<open>isKey\<close>); every other string is split into the
  names of a path (\<^verbatim>\<open>stringToPath\<close>, which collects the matches of \<^verbatim>\<open>rePropName\<close>:
  runs without dot and bracket, bracketed numbers and quoted texts, and the empty names
  between adjacent separators). The strings are those of ASCII characters.
\<close>

definition dot :: char where "dot = CHR ''.''"
definition lbracket :: char where "lbracket = CHR ''[''"
definition rbracket :: char where "rbracket = CHR '']''"
definition dquote :: char where "dquote = CHR 0x22"
definition squote :: char where "squote = CHR 0x27"
definition backslash :: char where "backslash = CHR 0x5C"

definition word_char :: "char \<Rightarrow> bool" where
  "word_char c = (c \<in> set ''abcdefghijklmnopqrstuvwxyzABCDEFGHIJKLMNOPQRSTUVWXYZ0123456789_'')"

definition digit :: "char \<Rightarrow> bool" where
  "digit c = (c \<in> set ''0123456789'')"

definition line_terminator :: "char \<Rightarrow> bool" where
  "line_terminator c = (c = CHR 0x0A \<or> c = CHR 0x0D)"

definition name_char :: "char \<Rightarrow> bool" where
  "name_char c = (c \<noteq> dot \<and> c \<noteq> lbracket \<and> c \<noteq> rbracket)"

text \<open>
  The text of a quoted name, after its opening quote \<open>q\<close>: characters other than the
  quote and the backslash, and backslash escapes, up to the first quote that is not
  escaped. The result is the text and what follows the closing quote.
\<close>

fun quoted :: "char \<Rightarrow> string \<Rightarrow> (string \<times> string) option" where
  "quoted q [] = None"
| "quoted q [c] = (if c = q then Some ([], []) else None)"
| "quoted q (c # d # ds) =
     (if c = q then Some ([], d # ds)
      else if c = backslash then
        (if line_terminator d then None
         else map_option (\<lambda>(sub, rest). (c # d # sub, rest)) (quoted q ds))
      else map_option (\<lambda>(sub, rest). (c # sub, rest)) (quoted q (d # ds)))"

definition reIsPlainProp :: "string \<Rightarrow> bool" where
  "reIsPlainProp s = (\<forall>c \<in> set s. word_char c)"

definition bracket_plain :: "string \<Rightarrow> bool" where
  "bracket_plain rest =
     (case dropWhile (\<lambda>c. c \<noteq> lbracket \<and> c \<noteq> rbracket) rest of
        [] \<Rightarrow> False | c # cs \<Rightarrow> c = rbracket)"

definition bracket_quoted :: "string \<Rightarrow> bool" where
  "bracket_quoted rest =
     (case rest of
        [] \<Rightarrow> False
      | q # cs \<Rightarrow> (q = dquote \<or> q = squote) \<and>
          (case quoted q cs of Some (sub, c # r) \<Rightarrow> c = rbracket | _ \<Rightarrow> False))"

fun bracket_match :: "string \<Rightarrow> bool" where
  "bracket_match [] = False"
| "bracket_match (c # cs) =
     ((c = lbracket \<and> (bracket_plain cs \<or> bracket_quoted cs)) \<or> bracket_match cs)"

definition reIsDeepProp :: "string \<Rightarrow> bool" where
  "reIsDeepProp s = (dot \<in> set s \<or> bracket_match s)"

definition isKey :: "(string \<times> 'a) list \<Rightarrow> string \<Rightarrow> bool" where
  "isKey object val =
     (reIsPlainProp val \<or> \<not> reIsDeepProp val \<or> val \<in> set (Object_keys object))"

text \<open>Backslash escapes in a quoted name: a backslash is dropped, a doubled one kept once.\<close>

fun unescape :: "string \<Rightarrow> string" where
  "unescape [] = []"
| "unescape [c] = (if c = backslash then [] else [c])"
| "unescape (c # d # ds) =
     (if c = backslash then (if d = backslash then d # unescape ds else unescape (d # ds))
      else c # unescape (d # ds))"

text \<open>
  After an opening bracket: a number (an optional minus, digits, an optional fraction)
  or a quoted text, and the closing bracket. The result is the name and what follows
  the closing bracket.
\<close>

definition number_key :: "string \<Rightarrow> (string \<times> string) option" where
  "number_key rest =
     (let sign = (case rest of c # cs \<Rightarrow> if c = CHR ''-'' then [c] else [] | [] \<Rightarrow> []);
          r0 = drop (length sign) rest;
          ds = takeWhile digit r0;
          r1 = dropWhile digit r0
      in if ds = [] then None
         else (case r1 of
                 [] \<Rightarrow> None
               | c # r2 \<Rightarrow>
                   if c = rbracket then Some (sign @ ds, r2)
                   else if c = dot then
                     (let es = takeWhile digit r2; r3 = dropWhile digit r2
                      in (case r3 of
                            [] \<Rightarrow> None
                          | x # r4 \<Rightarrow> if es \<noteq> [] \<and> x = rbracket
                                      then Some (sign @ ds @ [c] @ es, r4) else None))
                   else None))"

definition quoted_key :: "string \<Rightarrow> (string \<times> string) option" where
  "quoted_key rest =
     (case rest of
        [] \<Rightarrow> None
      | q # cs \<Rightarrow>
          if q = dquote \<or> q = squote then
            (case quoted q cs of
               Some (sub, c # r) \<Rightarrow> if c = rbracket then Some (unescape sub, r) else None
             | _ \<Rightarrow> None)
          else None)"

definition bracket_key :: "string \<Rightarrow> (string \<times> string) option" where
  "bracket_key rest = (case number_key rest of Some x \<Rightarrow> Some x | None \<Rightarrow> quoted_key rest)"

text \<open>
  The empty name: matched, without consuming a character, in front of a separator (a
  dot or an empty bracket pair) that is followed by another separator or by the end.
\<close>

definition separator :: "string \<Rightarrow> string option" where
  "separator s =
     (case s of
        [] \<Rightarrow> None
      | c # r \<Rightarrow> if c = dot then Some r
                 else if c = lbracket then
                   (case r of [] \<Rightarrow> None | d # r' \<Rightarrow> if d = rbracket then Some r' else None)
                 else None)"

definition lookahead :: "string \<Rightarrow> bool" where
  "lookahead s = (case separator s of None \<Rightarrow> False | Some r \<Rightarrow> r = [] \<or> separator r \<noteq> None)"

text \<open>
  The matches of \<^verbatim>\<open>rePropName\<close> from left to right: at each position the three
  alternatives in their order; after an empty match, or where none matches, the search
  moves one character on.
\<close>

function rePropName :: "string \<Rightarrow> string list" where
  "rePropName [] = []"
| "rePropName (c # cs) =
     (if name_char c then
        takeWhile name_char (c # cs) # rePropName (dropWhile name_char (c # cs))
      else if c = lbracket then
        (case bracket_key cs of
           Some (key, rest) \<Rightarrow> key # rePropName rest
         | None \<Rightarrow> (if lookahead (c # cs) then [[]] else []) @ rePropName cs)
      else (if lookahead (c # cs) then [[]] else []) @ rePropName cs)"
  by pat_completeness auto

termination rePropName
proof (relation "measure length")
  show "wf (measure length)" by simp
next
  fix c :: char and cs :: string
  assume "name_char c"
  then show "(dropWhile name_char (c # cs), c # cs) \<in> measure length"
    by (simp add: less_Suc_eq_le length_dropWhile_le)
next
  fix c :: char and cs :: string and x2 key rest
  assume "bracket_key cs = Some x2" and "(key, rest) = x2"
  then have k: "bracket_key cs = Some (key, rest)" by simp
  have q: "length r \<le> length s" if "quoted q s = Some (sub, r)" for q s sub r
    using that
  proof (induction q s arbitrary: sub r rule: quoted.induct)
    case (1 q)
    then show ?case by simp
  next
    case (2 q c)
    then show ?case by (simp split: if_splits)
  next
    case (3 q c d ds)
    then show ?case by (fastforce split: if_splits)
  qed
  have n: "length r \<le> length s" if "number_key s = Some (key, r)" for s r
  proof -
    have "length (dropWhile digit xs) \<le> length xs" for xs :: string
      by (rule length_dropWhile_le)
    from this [of "drop (length (case s of c # cs \<Rightarrow> if c = CHR ''-'' then [c] else [] | [] \<Rightarrow> [])) s"]
      this [of "tl (dropWhile digit (drop (length (case s of c # cs \<Rightarrow> if c = CHR ''-'' then [c] else [] | [] \<Rightarrow> [])) s))"]
      that
    show ?thesis
      by (auto simp: number_key_def Let_def split: if_splits list.splits)
  qed
  have "length rest \<le> length cs"
  proof (cases "number_key cs")
    case (Some y)
    with k have "number_key cs = Some (key, rest)" by (simp add: bracket_key_def)
    then show ?thesis by (rule n)
  next
    case None
    with k have "quoted_key cs = Some (key, rest)" by (simp add: bracket_key_def)
    then obtain q s sub where "cs = q # s" and "quoted q s = Some (sub, rbracket # rest)"
      by (auto simp: quoted_key_def split: list.splits if_splits option.splits)
    with q [of q s sub "rbracket # rest"] show ?thesis by simp
  qed
  then show "(rest, c # cs) \<in> measure length" by simp
next
  fix c :: char and cs :: string
  show "(cs, c # cs) \<in> measure length" by simp
next
  fix c :: char and cs :: string
  show "(cs, c # cs) \<in> measure length" by simp
qed

definition stringToPath :: "string \<Rightarrow> string list" where
  "stringToPath s =
     (case s of [] \<Rightarrow> [] | c # cs \<Rightarrow> if c = dot then [[]] else []) @ rePropName s"

definition castPath :: "(string \<times> 'a) list \<Rightarrow> string \<Rightarrow> string list" where
  "castPath object val = (if isKey object val then [val] else stringToPath val)"

subsection \<open>Omitting properties\<close>

text \<open>
  \<^verbatim>\<open>_.omit(object, paths)\<close> casts the paths against the object, copies the object (deeply,
  if a path has more than one name) and unsets the paths in the copy, the last one
  first. \<^verbatim>\<open>baseUnset\<close> deletes the property that a path of one name names; for a longer
  path it deletes inside the value of the first name, if there is one. What such a
  delete leaves of a value is the parameter \<open>unsetIn\<close>: the values are opaque here. An
  empty path deletes the property \<^verbatim>\<open>undefined\<close>.
\<close>

definition baseUnset ::
  "(string list \<Rightarrow> 'a \<Rightarrow> 'a) \<Rightarrow> (string \<times> 'a) list \<Rightarrow> string list \<Rightarrow> (string \<times> 'a) list" where
  "baseUnset unsetIn object path =
     (case path of
        [] \<Rightarrow> AList.delete ''undefined'' object
      | [key] \<Rightarrow> AList.delete key object
      | key # inner \<Rightarrow> map (\<lambda>(k, v). if k = key then (k, unsetIn inner v) else (k, v)) object)"

definition omit ::
  "(string list \<Rightarrow> 'a \<Rightarrow> 'a) \<Rightarrow> (string \<times> 'a) list \<Rightarrow> string list \<Rightarrow> (string \<times> 'a) list" where
  "omit unsetIn object paths =
     fold (\<lambda>path result. baseUnset unsetIn result path) (rev (map (castPath object) paths)) object"

text \<open>
  When every path is the name of one property, nothing but the removal of the named
  properties is left of \<^verbatim>\<open>_.omit\<close> (lemma \<open>omit_names\<close> below).
\<close>

definition omit_names :: "(string \<times> 'a) list \<Rightarrow> string list \<Rightarrow> (string \<times> 'a) list" where
  "omit_names object paths = filter (\<lambda>(k, v). k \<notin> set paths) object"

section \<open>The graph reducer\<close>

text \<open>
  \<^verbatim>\<open>updateTaskGraph(old, completed)\<close>, line by line. The read
  \<^verbatim>\<open>dependencies[taskId].length\<close> is on the object that was just zipped from \<^verbatim>\<open>taskIds\<close>,
  so it is always defined (lemma \<open>zipObject_lookup\<close> below). The parameter says what a
  delete inside a task leaves of it.
\<close>

definition updateTaskGraph_paths ::
  "(string list \<Rightarrow> ('t, 'o) Task \<Rightarrow> ('t, 'o) Task) \<Rightarrow> ('t, 'o) TaskGraph \<Rightarrow> string list
     \<Rightarrow> ('t, 'o) TaskGraph" where
  "updateTaskGraph_paths unsetIn old completed =
     (let tasks' = omit unsetIn (tasks old) completed;
          taskIds = Object_keys tasks';
          dependencies' = zipObject taskIds
            (map (\<lambda>taskId. difference (map_of (dependencies old) taskId) completed) taskIds);
          roots' = filter (\<lambda>taskId. case map_of dependencies' taskId of
                                      Some ds \<Rightarrow> 0 = length ds | None \<Rightarrow> False) taskIds
      in \<lparr>tasks = tasks', dependencies = dependencies', roots = roots'\<rparr>)"

text \<open>
  The scheduling loop completes the ids of tasks that it found in the graph. In a graph
  that stores each task under its own id these are keys of \<^verbatim>\<open>old.tasks\<close>, each the name
  of one property (lemma \<open>round_completes_names\<close> below). On lists of such names the
  reducer is the following function (lemma \<open>updateTaskGraph_paths_names\<close> below), which
  the loop is modelled with.
\<close>

definition updateTaskGraph ::
  "('t, 'o) TaskGraph \<Rightarrow> string list \<Rightarrow> ('t, 'o) TaskGraph" where
  "updateTaskGraph old completed =
     (let tasks' = omit_names (tasks old) completed;
          taskIds = Object_keys tasks';
          dependencies' = zipObject taskIds
            (map (\<lambda>taskId. difference (map_of (dependencies old) taskId) completed) taskIds);
          roots' = filter (\<lambda>taskId. case map_of dependencies' taskId of
                                      Some ds \<Rightarrow> 0 = length ds | None \<Rightarrow> False) taskIds
      in \<lparr>tasks = tasks', dependencies = dependencies', roots = roots'\<rparr>)"

text \<open>The dependency list the reducer reads for a task id: empty when none is declared.\<close>

definition deps_of :: "('t, 'o) TaskGraph \<Rightarrow> string \<Rightarrow> string list" where
  "deps_of g k = difference (map_of (dependencies g) k) []"

text \<open>
  The reducer on a store of objects, to tell the objects it creates from those it is
  given: the store is the list of the objects allocated so far, an address is an index.
  \<^verbatim>\<open>_.omit\<close>, \<^verbatim>\<open>_.zipObject\<close> and \<^verbatim>\<open>filter\<close> each create an object, and so does the object
  literal that is returned; the arrays that \<^verbatim>\<open>_.difference\<close> creates are held in the new
  dependencies object. Tasks, strings and dependency arrays are held by value in the
  objects that refer to them: the library functions called here write to none of their
  arguments. \<open>None\<close> is the \<^verbatim>\<open>TypeError\<close> of reading a field of what is not a graph.
\<close>

datatype ('t, 'o) obj =
    TasksObj "(string \<times> ('t, 'o) Task) list"
  | DepsObj "(string \<times> string list) list"
  | StrArray "string list"
  | GraphObj nat nat nat

type_synonym ('t, 'o) heap = "('t, 'o) obj list"

definition deref :: "('t, 'o) heap \<Rightarrow> nat \<Rightarrow> ('t, 'o) obj option" where
  "deref h r = (if r < length h then Some (h ! r) else None)"

definition alloc :: "('t, 'o) heap \<Rightarrow> ('t, 'o) obj \<Rightarrow> ('t, 'o) heap \<times> nat" where
  "alloc h ob = (h @ [ob], length h)"

text \<open>The graph value that a graph object of the store stands for (fields in the order
  \<^verbatim>\<open>dependencies\<close>, \<^verbatim>\<open>roots\<close>, \<^verbatim>\<open>tasks\<close>).\<close>

definition graph_at :: "('t, 'o) heap \<Rightarrow> nat \<Rightarrow> ('t, 'o) TaskGraph option" where
  "graph_at h r =
     (case deref h r of
        Some (GraphObj d rt t) \<Rightarrow>
          (case (deref h d, deref h rt, deref h t) of
             (Some (DepsObj ds), Some (StrArray rs), Some (TasksObj ts)) \<Rightarrow>
               Some \<lparr>tasks = ts, dependencies = ds, roots = rs\<rparr>
           | _ \<Rightarrow> None)
      | _ \<Rightarrow> None)"

definition updateTaskGraph_heap ::
  "(string list \<Rightarrow> ('t, 'o) Task \<Rightarrow> ('t, 'o) Task) \<Rightarrow> ('t, 'o) heap \<Rightarrow> nat \<Rightarrow> string list
     \<Rightarrow> (('t, 'o) heap \<times> nat) option" where
  "updateTaskGraph_heap unsetIn h old completed =
     (case deref h old of
        Some (GraphObj d rt t) \<Rightarrow>
          (case (deref h d, deref h t) of
             (Some (DepsObj ds), Some (TasksObj ts)) \<Rightarrow>
               (let (h1, tasks') = alloc h (TasksObj (omit unsetIn ts completed));
                    taskIds = Object_keys (omit unsetIn ts completed);
                    zipped = zipObject taskIds
                      (map (\<lambda>taskId. difference (map_of ds taskId) completed) taskIds);
                    (h2, dependencies') = alloc h1 (DepsObj zipped);
                    (h3, roots') = alloc h2
                      (StrArray (filter (\<lambda>taskId. case map_of zipped taskId of
                                                    Some ds \<Rightarrow> 0 = length ds | None \<Rightarrow> False) taskIds))
                in Some (alloc h3 (GraphObj dependencies' roots' tasks')))
           | _ \<Rightarrow> None)
      | _ \<Rightarrow> None)"

section \<open>The scheduling loop\<close>

text \<open>
  The variables of \<^verbatim>\<open>runAllTasks\<close>: \<^verbatim>\<open>results\<close> (an object), \<^verbatim>\<open>todo\<close> (a \<^verbatim>\<open>Set\<close>, here a
  list without duplicates, of which only the size is read), \<^verbatim>\<open>continuedTasks\<close> (the
  promises of the background drains, each with what it settles to), \<^verbatim>\<open>todoTaskGraph\<close>
  and \<^verbatim>\<open>prevSize\<close>, together with the outside world and the trace of calls made so far.

  The model starts where the project graph and the configuration have been read and
  the executor context is built. The methods of the life cycle reporter and
  \<^verbatim>\<open>logger.error\<close> return normally, and every \<^verbatim>\<open>await\<close> settles: the executor and its
  streams may reject, but they do not hang.
\<close>

record ('t, 'o, 'w) run_state =
  results :: "(string \<times> TaskStatus) list"
  todo :: "string list"
  continuedTasks :: "(error + unit) list"
  todoTaskGraph :: "('t, 'o) TaskGraph"
  prevSize :: nat
  world :: 'w
  trace :: "('t, 'o) event list"

text \<open>
  \<^verbatim>\<open>exhaustAsyncIterator(output, event)\<close>: call \<^verbatim>\<open>next()\<close> until an event is done. A
  rejected \<^verbatim>\<open>next()\<close> rejects the drain. On a used-up iterator \<^verbatim>\<open>next()\<close> reports done.
\<close>

fun exhaustAsyncIterator :: "iterator \<Rightarrow> IteratorResult \<Rightarrow> error + unit" where
  "exhaustAsyncIterator output event =
     (if ev_done event then Inr ()
      else (case output of
              [] \<Rightarrow> Inr ()
            | Inl err # rest \<Rightarrow> Inl err
            | Inr event' # rest \<Rightarrow> exhaustAsyncIterator rest event'))"

text \<open>
  The body of the \<^verbatim>\<open>for\<close> loop, for one root id. \<^verbatim>\<open>todoTaskGraph.tasks[rootTaskId]\<close> may be
  \<^verbatim>\<open>undefined\<close>: then \<^verbatim>\<open>task.target\<close> throws inside the \<^verbatim>\<open>try\<close> and is caught, but
  \<^verbatim>\<open>results[task.id]\<close> after it throws again, outside, and that ends the run.
  Inside the \<^verbatim>\<open>try\<close>, three things can throw: \<^verbatim>\<open>runExecutor\<close>, \<^verbatim>\<open>output.next()\<close> and the
  destructuring of an \<^verbatim>\<open>undefined\<close> event value; all leave \<open>status\<close> at its initial
  \<^verbatim>\<open>'failure'\<close> and skip \<^verbatim>\<open>completed.push\<close>.
\<close>

definition runRoot ::
  "('t, 'o, 'w) executor \<Rightarrow> ('t, 'o, 'w) run_state \<Rightarrow> string list \<Rightarrow> string
     \<Rightarrow> error + ('t, 'o, 'w) run_state \<times> string list" where
  "runRoot exec s completed rootTaskId =
     (case map_of (tasks (todoTaskGraph s)) rootTaskId of
        None \<Rightarrow> Inl TypeError
      | Some task \<Rightarrow>
          (let (started, w') = exec (world s) (target task) (overrides task);
               (status, logged, continued, completed') =
                 (case started of
                    Inl err \<Rightarrow> (Failure, [LoggerError err], [], completed)
                  | Inr output \<Rightarrow>
                      (case iter_next output of
                         (Inl err, rest) \<Rightarrow> (Failure, [LoggerError err], [], completed)
                       | (Inr event, rest) \<Rightarrow>
                           (case ev_value event of
                              None \<Rightarrow> (Failure, [LoggerError TypeError], [], completed)
                            | Some success \<Rightarrow>
                                (if success then Success else Failure, [],
                                 if \<not> ev_done event then [exhaustAsyncIterator rest event] else [],
                                 completed @ [task_id task]))));
               code = (if Success = status then 0 else 1)
           in Inr (s\<lparr>results := AList.update (task_id task) status (results s),
                      todo := removeAll (task_id task) (todo s),
                      continuedTasks := continuedTasks s @ continued,
                      world := w',
                      trace := trace s @ [StartTasks task, ScheduleTask task, RunExecutor task]
                                 @ logged @ [EndTasks code status task]\<rparr>,
                   completed')))"

text \<open>The \<^verbatim>\<open>for\<close> loop over \<^verbatim>\<open>todoTaskGraph.roots\<close>; a throw ends it.\<close>

fun runRoots ::
  "('t, 'o, 'w) executor \<Rightarrow> string list \<Rightarrow> ('t, 'o, 'w) run_state \<Rightarrow> string list
     \<Rightarrow> error + ('t, 'o, 'w) run_state \<times> string list" where
  "runRoots exec [] s completed = Inr (s, completed)"
| "runRoots exec (rootTaskId # rest) s completed =
     (case runRoot exec s completed rootTaskId of
        Inl err \<Rightarrow> Inl err
      | Inr (s', completed') \<Rightarrow> runRoots exec rest s' completed')"

text \<open>
  The \<^verbatim>\<open>while\<close> loop. Each round stores the size of \<^verbatim>\<open>todo\<close> in \<^verbatim>\<open>prevSize\<close>, and the
  next round starts only if the size went below it, so \<^verbatim>\<open>prevSize\<close> decreases.
\<close>

function runLoop ::
  "('t, 'o, 'w) executor \<Rightarrow> ('t, 'o, 'w) run_state \<Rightarrow> error + ('t, 'o, 'w) run_state" where
  "runLoop exec s =
     (if 0 < length (todo s) \<and> prevSize s > length (todo s) then
        (case runRoots exec (roots (todoTaskGraph s)) (s\<lparr>prevSize := length (todo s)\<rparr>) [] of
           Inl err \<Rightarrow> Inl err
         | Inr (s', completed) \<Rightarrow>
             runLoop exec (s'\<lparr>todoTaskGraph := updateTaskGraph (todoTaskGraph s') completed\<rparr>))
      else Inr s)"
  by pat_completeness auto

termination runLoop
proof (relation "measure (\<lambda>(exec, s). prevSize s)")
  show "wf (measure (\<lambda>(exec, s). prevSize s))" by simp
next
  fix exec :: "('t, 'o, 'w) executor" and s :: "('t, 'o, 'w) run_state"
    and x2 s' completed
  assume enter: "0 < length (todo s) \<and> length (todo s) < prevSize s"
    and round: "runRoots exec (roots (todoTaskGraph s)) (s\<lparr>prevSize := length (todo s)\<rparr>) [] = Inr x2"
    and x2: "(s', completed) = x2"
  have one: "prevSize b = prevSize a" if "runRoot exec a c r = Inr (b, c')" for a b c c' r
    using that by (auto simp: runRoot_def Let_def split: option.splits prod.splits)
  have all: "prevSize b = prevSize a" if "runRoots exec rs a c = Inr (b, c')" for rs a b c c'
    using that
  proof (induction rs arbitrary: a c)
    case Nil
    then show ?case by simp
  next
    case (Cons r rs)
    then show ?case by (auto split: sum.splits dest: one)
  qed
  from round x2 have "prevSize s' = length (todo s)"
    using all [of "roots (todoTaskGraph s)" "s\<lparr>prevSize := length (todo s)\<rparr>" "[]" s' completed]
    by simp
  with enter
  show "((exec, s'\<lparr>todoTaskGraph := updateTaskGraph (todoTaskGraph s') completed\<rparr>), exec, s)
          \<in> measure (\<lambda>(exec, s). prevSize s)"
    by simp
qed

declare runLoop.simps [simp del]

text \<open>
  \<^verbatim>\<open>Promise.all\<close> over the drains: rejected as soon as one of them is, fulfilled with
  all their values otherwise.
\<close>

fun Promise_all :: "(error + 'a) list \<Rightarrow> error + 'a list" where
  "Promise_all [] = Inr []"
| "Promise_all (Inl err # ps) = Inl err"
| "Promise_all (Inr v # ps) =
     (case Promise_all ps of Inl err \<Rightarrow> Inl err | Inr vs \<Rightarrow> Inr (v # vs))"

text \<open>
  \<^verbatim>\<open>runAllTasks(tasks, options, context)\<close>: the state before the first round, the loop,
  and the join of the drains before \<^verbatim>\<open>results\<close> is returned.
\<close>

definition initial_state ::
  "('t, 'o) Task list \<Rightarrow> ('t, 'o) TaskGraph \<Rightarrow> 'w \<Rightarrow> ('t, 'o, 'w) run_state" where
  "initial_state ts taskGraph w =
     \<lparr>results = zipObject (map task_id ts) (map (\<lambda>t. Skipped) ts),
      todo = remdups (map task_id ts),
      continuedTasks = [],
      todoTaskGraph = taskGraph,
      prevSize = length (remdups (map task_id ts)) + 1,
      world = w,
      trace = []\<rparr>"

definition runAllTasks ::
  "('t, 'o, 'w) executor \<Rightarrow> ('t, 'o) Task list \<Rightarrow> ('t, 'o) TaskGraph \<Rightarrow> 'w
     \<Rightarrow> error + (string \<times> TaskStatus) list" where
  "runAllTasks exec ts taskGraph w =
     (case runLoop exec (initial_state ts taskGraph w) of
        Inl err \<Rightarrow> Inl err
      | Inr s \<Rightarrow>
          (case Promise_all (continuedTasks s) of
             Inl err \<Rightarrow> Inl err
           | Inr u \<Rightarrow> Inr (results s)))"

text \<open>The tasks handed to \<^verbatim>\<open>runExecutor\<close>, in the order of the calls.\<close>

fun dispatched :: "('t, 'o) event list \<Rightarrow> string list" where
  "dispatched [] = []"
| "dispatched (RunExecutor t # es) = task_id t # dispatched es"
| "dispatched (e # es) = dispatched es"

text \<open>The ids of the tasks that \<^verbatim>\<open>endTasks\<close> was called for.\<close>

fun ended :: "('t, 'o) event list \<Rightarrow> string set" where
  "ended [] = {}"
| "ended (EndTasks code status t # es) = insert (task_id t) (ended es)"
| "ended (e # es) = ended es"

text \<open>
  A trace keeps the dependency order \<open>d\<close> when every call of \<^verbatim>\<open>runExecutor\<close> for a task
  comes after the \<^verbatim>\<open>endTasks\<close> call of each task in \<open>d\<close> of its id; \<open>E\<close> holds the ids
  ended before the trace starts. The status that \<^verbatim>\<open>endTasks\<close> reports is the one written
  to \<^verbatim>\<open>results\<close> in the same step.
\<close>

fun deps_first :: "(string \<Rightarrow> string list) \<Rightarrow> string set \<Rightarrow> ('t, 'o) event list \<Rightarrow> bool" where
  "deps_first d E [] = True"
| "deps_first d E (RunExecutor t # es) = (set (d (task_id t)) \<subseteq> E \<and> deps_first d E es)"
| "deps_first d E (EndTasks code status t # es) = deps_first d (insert (task_id t) E) es"
| "deps_first d E (e # es) = deps_first d E es"

section \<open>Well-formed task graphs\<close>

text \<open>
  The node ids of a graph; the typing of \<^verbatim>\<open>tasks\<close> (each task stored under its own id);
  the invariant of \<^verbatim>\<open>roots\<close> (roots are nodes without dependencies), and its exact form
  (all of them); the graph is fully declared when every dependency is a node; the
  dependency relation, a pair \<open>(d, k)\<close> for each node \<open>k\<close> that depends on \<open>d\<close>.
\<close>

definition nodes :: "('t, 'o) TaskGraph \<Rightarrow> string set" where
  "nodes g = set (Object_keys (tasks g))"

definition keyed_by_id :: "('t, 'o) TaskGraph \<Rightarrow> bool" where
  "keyed_by_id g = (\<forall>(k, t) \<in> set (tasks g). task_id t = k)"

definition roots_invariant :: "('t, 'o) TaskGraph \<Rightarrow> bool" where
  "roots_invariant g = (\<forall>r \<in> set (roots g). r \<in> nodes g \<and> deps_of g r = [])"

definition roots_exact :: "('t, 'o) TaskGraph \<Rightarrow> bool" where
  "roots_exact g = (set (roots g) = {k \<in> nodes g. deps_of g k = []})"

definition fully_declared :: "('t, 'o) TaskGraph \<Rightarrow> bool" where
  "fully_declared g = (\<forall>k \<in> nodes g. set (deps_of g k) \<subseteq> nodes g)"

definition depRel :: "('t, 'o) TaskGraph \<Rightarrow> (string \<times> string) set" where
  "depRel g = {(d, k). k \<in> nodes g \<and> d \<in> set (deps_of g k)}"

text \<open>
  An executor call keeps the contract of the adapter when it resolves to an iterator
  whose first \<^verbatim>\<open>next()\<close> resolves to an event with a value, and whose remaining events
  can be drained without a rejection.
\<close>

fun yields_first :: "error + iterator \<Rightarrow> bool" where
  "yields_first (Inr (Inr event # rest)) =
     (ev_value event \<noteq> None \<and> exhaustAsyncIterator rest event = Inr ())"
| "yields_first started = False"

text \<open>
  The status that one adapter call gives its task, and whether the drain that the call
  leaves behind, if any, ends without a rejection.
\<close>

definition run_status :: "error + iterator \<Rightarrow> TaskStatus" where
  "run_status started =
     (case started of
        Inl err \<Rightarrow> Failure
      | Inr iter \<Rightarrow>
          (case iter_next iter of
             (Inl err, rest) \<Rightarrow> Failure
           | (Inr event, rest) \<Rightarrow>
               (case ev_value event of
                  None \<Rightarrow> Failure
                | Some success \<Rightarrow> if success then Success else Failure)))"

fun drains_ok :: "error + iterator \<Rightarrow> bool" where
  "drains_ok (Inr (Inr event # rest)) =
     (ev_value event = None \<or> exhaustAsyncIterator rest event = Inr ())"
| "drains_ok started = True"

text \<open>
  What holds between the rounds of a run on an acyclic, fully declared graph with an
  adapter that keeps its contract; \<open>ids\<close> are the ids of the submitted tasks. The
  tasks still to do are the nodes left in the graph, every submitted id has an entry
  in \<^verbatim>\<open>results\<close>, the ids no longer in the graph have a status from a run, and no
  drain was rejected.
\<close>

definition run_invariant :: "string set \<Rightarrow> ('t, 'o, 'w) run_state \<Rightarrow> bool" where
  "run_invariant ids s =
     (keyed_by_id (todoTaskGraph s) \<and> roots_exact (todoTaskGraph s)
      \<and> fully_declared (todoTaskGraph s) \<and> acyclic (depRel (todoTaskGraph s))
      \<and> set (todo s) = nodes (todoTaskGraph s) \<and> nodes (todoTaskGraph s) \<subseteq> ids
      \<and> fst ` set (results s) = ids
      \<and> (\<forall>i \<in> ids - nodes (todoTaskGraph s). map_of (results s) i \<in> {Some Success, Some Failure})
      \<and> set (continuedTasks s) \<subseteq> {Inr ()})"

section \<open>Example inputs\<close>

text \<open>
  Two tasks \<open>A\<close> and \<open>B\<close>; the graph in which \<open>B\<close> depends on \<open>A\<close>, the graph in which
  they are independent, the graph in which they depend on each other, and the graph
  of \<open>B\<close> alone with a dependency on \<open>A\<close> left over; the graph of two chains, in which
  \<open>B\<close> depends on \<open>A\<close> and \<open>D\<close> on \<open>C\<close>. The executors count their calls in the world:
  one always yields a single final event, with success unless the target is \<^verbatim>\<open>fail\<close>;
  one always rejects; one resolves to an iterator that finishes at once; one does so on
  its first call and yields a single final event with success on every later call.
\<close>

definition mk :: "string \<Rightarrow> string \<Rightarrow> (string, unit) Task" where
  "mk i tgt = \<lparr>task_id = i, target = tgt, overrides = ()\<rparr>"

definition graph_chain :: "(string, unit) TaskGraph" where
  "graph_chain =
     \<lparr>tasks = [(''A'', mk ''A'' ''fail''), (''B'', mk ''B'' ''build'')],
      dependencies = [(''A'', []), (''B'', [''A''])],
      roots = [''A'']\<rparr>"

definition graph_flat :: "(string, unit) TaskGraph" where
  "graph_flat =
     \<lparr>tasks = [(''A'', mk ''A'' ''build''), (''B'', mk ''B'' ''build'')],
      dependencies = [(''A'', []), (''B'', [])],
      roots = [''A'', ''B'']\<rparr>"

definition graph_cycle :: "(string, unit) TaskGraph" where
  "graph_cycle =
     \<lparr>tasks = [(''A'', mk ''A'' ''build''), (''B'', mk ''B'' ''build'')],
      dependencies = [(''A'', [''B'']), (''B'', [''A''])],
      roots = []\<rparr>"

definition graph_dangling :: "(string, unit) TaskGraph" where
  "graph_dangling =
     \<lparr>tasks = [(''B'', mk ''B'' ''build'')],
      dependencies = [(''B'', [''A''])],
      roots = []\<rparr>"

definition exec_yield :: "(string, unit, nat) executor" where
  "exec_yield w tgt ov = (Inr [Inr (IteratorResult (Some (tgt \<noteq> ''fail'')) True)], Suc w)"

definition exec_raise :: "(string, unit, nat) executor" where
  "exec_raise w tgt ov = (Inl (ExecutorError ''boom''), Suc w)"

definition exec_empty :: "(string, unit, nat) executor" where
  "exec_empty w tgt ov = (Inr [], Suc w)"

definition graph_chains :: "(string, unit) TaskGraph" where
  "graph_chains =
     \<lparr>tasks = [(''A'', mk ''A'' ''build''), (''B'', mk ''B'' ''build''),
               (''C'', mk ''C'' ''build''), (''D'', mk ''D'' ''build'')],
      dependencies = [(''A'', []), (''B'', [''A'']), (''C'', []), (''D'', [''C''])],
      roots = [''A'', ''C'']\<rparr>"

definition exec_empty_first :: "(string, unit, nat) executor" where
  "exec_empty_first w tgt ov =
     (if w = 0 then Inr [] else Inr [Inr (IteratorResult (Some True) True)], Suc w)"

text \<open>
  Tasks whose target is a property that can be deleted; what \<^verbatim>\<open>delete task.target\<close> leaves
  of such a task (the examples unset no other path inside a task); the chain of \<open>A\<close> and
  \<open>B\<close> with such tasks; three such tasks \<open>A\<close>, \<open>B\<close>, \<open>C\<close>, where \<open>B\<close> depends on \<open>A\<close>, on
  an id \<open>X\<close> that is no task and on \<open>C\<close>; and a store that holds this graph at address 3.
\<close>

definition mk_opt :: "string \<Rightarrow> string \<Rightarrow> (string option, unit) Task" where
  "mk_opt i tgt = \<lparr>task_id = i, target = Some tgt, overrides = ()\<rparr>"

definition unset_target ::
  "string list \<Rightarrow> (string option, unit) Task \<Rightarrow> (string option, unit) Task" where
  "unset_target path t = (if path = [''target''] then t\<lparr>target := None\<rparr> else t)"

definition graph_targets :: "(string option, unit) TaskGraph" where
  "graph_targets =
     \<lparr>tasks = [(''A'', mk_opt ''A'' ''build''), (''B'', mk_opt ''B'' ''build'')],
      dependencies = [(''A'', []), (''B'', [''A''])],
      roots = [''A'']\<rparr>"

definition graph_three :: "(string option, unit) TaskGraph" where
  "graph_three =
     \<lparr>tasks = [(''A'', mk_opt ''A'' ''build''), (''B'', mk_opt ''B'' ''build''),
               (''C'', mk_opt ''C'' ''build'')],
      dependencies = [(''A'', []), (''B'', [''A'', ''X'', ''C'']), (''C'', [])],
      roots = [''A'', ''C'']\<rparr>"

definition heap_three :: "(string option, unit) heap" where
  "heap_three = [DepsObj (dependencies graph_three), StrArray (roots graph_three),
                 TasksObj (tasks graph_three), GraphObj 0 1 2]"

section \<open>Properties of the graph reducer\<close>

lemma fold_update_lookup:
  "map_of (fold (\<lambda>(k, v) object. AList.update k v object) (zip ks (map f ks)) acc) k =
     (if k \<in> set ks then Some (f k) else map_of acc k)"
  by (induction ks arbitrary: acc) (simp_all add: update_conv')

lemma zipObject_lookup:
  "map_of (zipObject ks (map f ks)) k = (if k \<in> set ks then Some (f k) else None)"
  by (simp add: zipObject_def fold_update_lookup)

lemma zipObject_keys: "fst ` set (zipObject ks (map f ks)) = set ks"
proof -
  have "dom (map_of (zipObject ks (map f ks))) = set ks"
    by (auto simp: zipObject_lookup dom_def)
  then show ?thesis by (simp add: dom_map_of_conv_image_fst)
qed

lemma zipObject_cong:
  "(\<And>k. k \<in> set ks \<Longrightarrow> f k = h k) \<Longrightarrow> zipObject ks (map f ks) = zipObject ks (map h ks)"
  by (simp cong: map_cong)

lemma tasks_updateTaskGraph: "tasks (updateTaskGraph g c) = omit_names (tasks g) c"
  by (simp add: updateTaskGraph_def Let_def)

lemma dependencies_updateTaskGraph:
  "dependencies (updateTaskGraph g c) =
     zipObject (Object_keys (omit_names (tasks g) c))
       (map (\<lambda>taskId. difference (map_of (dependencies g) taskId) c) (Object_keys (omit_names (tasks g) c)))"
  by (simp add: updateTaskGraph_def Let_def)

lemma roots_updateTaskGraph:
  "roots (updateTaskGraph g c) =
     filter (\<lambda>taskId. case map_of (dependencies (updateTaskGraph g c)) taskId of
                        Some ds \<Rightarrow> 0 = length ds | None \<Rightarrow> False)
       (Object_keys (tasks (updateTaskGraph g c)))"
  by (simp add: updateTaskGraph_def Let_def)

lemma nodes_updateTaskGraph: "nodes (updateTaskGraph g c) = nodes g - set c"
  by (auto simp: nodes_def tasks_updateTaskGraph omit_names_def Object_keys_def)

lemma difference_append: "difference (Some (difference a xs)) ys = difference a (xs @ ys)"
  by (auto simp: difference_def split: option.splits)

lemma lookup_updateTaskGraph:
  "map_of (dependencies (updateTaskGraph g c)) k =
     (if k \<in> nodes g - set c then Some (difference (map_of (dependencies g) k) c) else None)"
  unfolding dependencies_updateTaskGraph zipObject_lookup
  by (auto simp: nodes_def omit_names_def Object_keys_def)

lemma deps_of_updateTaskGraph:
  "deps_of (updateTaskGraph g c) k =
     (if k \<in> nodes g - set c then filter (\<lambda>d. d \<notin> set c) (deps_of g k) else [])"
  by (auto simp: deps_of_def lookup_updateTaskGraph difference_def split: option.splits)

lemma set_roots_updateTaskGraph:
  "set (roots (updateTaskGraph g c)) =
     {k \<in> nodes (updateTaskGraph g c). deps_of (updateTaskGraph g c) k = []}"
proof -
  have "(case map_of (dependencies (updateTaskGraph g c)) k of
           Some ds \<Rightarrow> 0 = length ds | None \<Rightarrow> False)
        = (deps_of (updateTaskGraph g c) k = [])"
    if "k \<in> nodes (updateTaskGraph g c)" for k
    using that
    by (auto simp: nodes_updateTaskGraph deps_of_def lookup_updateTaskGraph difference_def
        split: option.splits)
  then show ?thesis
    unfolding roots_updateTaskGraph by (auto simp: nodes_def)
qed

lemma omit_names_twice: "omit_names (omit_names object a) b = omit_names object (a @ b)"
  by (simp add: omit_names_def case_prod_unfold conj_commute)

lemma updateTaskGraph_twice:
  "updateTaskGraph (updateTaskGraph g a) b = updateTaskGraph g (a @ b)"
proof -
  have t: "tasks (updateTaskGraph (updateTaskGraph g a) b) = tasks (updateTaskGraph g (a @ b))"
    by (simp add: tasks_updateTaskGraph omit_names_twice)
  have "difference (map_of (dependencies (updateTaskGraph g a)) k) b
      = difference (map_of (dependencies g) k) (a @ b)"
    if "k \<in> set (Object_keys (omit_names (tasks g) (a @ b)))" for k
  proof -
    from that have "k \<in> nodes g - set a"
      by (auto simp: nodes_def omit_names_def Object_keys_def)
    then show ?thesis
      by (simp add: lookup_updateTaskGraph difference_append)
  qed
  then have d: "dependencies (updateTaskGraph (updateTaskGraph g a) b)
              = dependencies (updateTaskGraph g (a @ b))"
    unfolding dependencies_updateTaskGraph [of "updateTaskGraph g a" b]
      dependencies_updateTaskGraph [of g "a @ b"] tasks_updateTaskGraph omit_names_twice
    by (rule zipObject_cong)
  have r: "roots (updateTaskGraph (updateTaskGraph g a) b) = roots (updateTaskGraph g (a @ b))"
    unfolding roots_updateTaskGraph [of "updateTaskGraph g a" b]
      roots_updateTaskGraph [of g "a @ b"] t d ..
  from t d r show ?thesis by simp
qed

subsection \<open>The reducer on property paths\<close>

text \<open>
  On paths that each name one property, \<^verbatim>\<open>_.omit\<close> removes the named properties and
  nothing else, and the reducer is the reducer on names. \<^verbatim>\<open>_.omit\<close> never adds a
  property, so a name that is no key of the object removes nothing, wherever it stands
  in the list. On a store, the reducer leaves every object that was there as it was and
  returns a graph object made of new objects.
\<close>

lemma fold_delete_filter:
  "fold AList.delete ps object = filter (\<lambda>(k, v). k \<notin> set ps) object"
proof (induction ps arbitrary: object)
  case Nil
  then show ?case by simp
next
  case (Cons p ps)
  have "fold AList.delete (p # ps) object = fold AList.delete ps (AList.delete p object)"
    by simp
  also have "\<dots> = filter (\<lambda>(k, v). k \<notin> set ps) (AList.delete p object)"
    by (rule Cons.IH)
  also have "\<dots> = filter (\<lambda>(k, v). k \<notin> set (p # ps)) object"
    by (auto simp: AList.delete_eq case_prod_unfold intro: filter_cong)
  finally show ?case .
qed

lemma baseUnset_name: "baseUnset u object [k] = AList.delete k object"
  by (simp add: baseUnset_def)

lemma fold_baseUnset_names:
  "fold (\<lambda>path result. baseUnset u result path) (map (\<lambda>p. [p]) ps) object = fold AList.delete ps object"
  by (induction ps arbitrary: object) (simp_all add: baseUnset_name)

lemma omit_names:
  assumes "\<forall>p \<in> set paths. isKey object p"
  shows "omit u object paths = omit_names object paths"
proof -
  have m: "map (castPath object) (rev paths) = map (\<lambda>p. [p]) (rev paths)"
    by (rule map_cong) (use assms in \<open>simp_all add: castPath_def\<close>)
  show ?thesis
    unfolding omit_def rev_map m fold_baseUnset_names fold_delete_filter omit_names_def
    by simp
qed

lemma updateTaskGraph_paths_names:
  assumes "\<forall>p \<in> set c. isKey (tasks g) p"
  shows "updateTaskGraph_paths u g c = updateTaskGraph g c"
  by (simp add: updateTaskGraph_paths_def updateTaskGraph_def omit_names [OF assms])

lemma keys_baseUnset: "fst ` set (baseUnset u object path) \<subseteq> fst ` set object"
  by (auto simp: baseUnset_def AList.delete_eq split: list.splits) force+

lemma keys_fold_baseUnset:
  "fst ` set (fold (\<lambda>path result. baseUnset u result path) ps object) \<subseteq> fst ` set object"
proof (induction ps arbitrary: object)
  case Nil
  then show ?case by simp
next
  case (Cons p ps)
  from Cons.IH [of "baseUnset u object p"] keys_baseUnset [of u object p]
  show ?case by auto
qed

lemma delete_absent: "x \<notin> fst ` set object \<Longrightarrow> AList.delete x object = object"
  by (induction object) (auto simp: AList.delete_eq)

lemma omit_absent:
  assumes "x \<notin> fst ` set object" and "isKey object x"
  shows "omit u object (c1 @ x # c2) = omit u object (c1 @ c2)"
proof -
  let ?f = "\<lambda>path result. baseUnset u result path"
  let ?r = "fold ?f (rev (map (castPath object) c2)) object"
  from keys_fold_baseUnset [of u "rev (map (castPath object) c2)" object] assms(1)
  have "x \<notin> fst ` set ?r" by auto
  then have "baseUnset u ?r [x] = ?r"
    by (simp add: baseUnset_name delete_absent)
  with assms(2) show ?thesis
    by (simp add: omit_def castPath_def)
qed

lemma difference_absent:
  "difference a (c1 @ x # c2) = filter (\<lambda>d. d \<noteq> x) (difference a (c1 @ c2))"
  by (cases a) (auto simp: difference_def intro: filter_cong)

lemma tasks_updateTaskGraph_paths:
  "tasks (updateTaskGraph_paths u g c) = omit u (tasks g) c"
  by (simp add: updateTaskGraph_paths_def Let_def)

lemma dependencies_updateTaskGraph_paths:
  "dependencies (updateTaskGraph_paths u g c) =
     zipObject (Object_keys (omit u (tasks g) c))
       (map (\<lambda>taskId. difference (map_of (dependencies g) taskId) c) (Object_keys (omit u (tasks g) c)))"
  by (simp add: updateTaskGraph_paths_def Let_def)

lemma roots_updateTaskGraph_paths:
  "roots (updateTaskGraph_paths u g c) =
     filter (\<lambda>taskId. case map_of (dependencies (updateTaskGraph_paths u g c)) taskId of
                        Some ds \<Rightarrow> 0 = length ds | None \<Rightarrow> False)
       (Object_keys (tasks (updateTaskGraph_paths u g c)))"
  by (simp add: updateTaskGraph_paths_def Let_def)

lemma lookup_updateTaskGraph_paths:
  "map_of (dependencies (updateTaskGraph_paths u g c)) k =
     (if k \<in> set (Object_keys (omit u (tasks g) c))
      then Some (difference (map_of (dependencies g) k) c) else None)"
  unfolding dependencies_updateTaskGraph_paths zipObject_lookup ..

lemma updateTaskGraph_heap_run:
  assumes "graph_at h old = Some g"
  shows "\<exists>h' new d r t. updateTaskGraph_heap u h old c = Some (h', new)
    \<and> take (length h) h' = h
    \<and> graph_at h' old = Some g
    \<and> graph_at h' new = Some (updateTaskGraph_paths u g c)
    \<and> deref h' new = Some (GraphObj d r t)
    \<and> length h \<le> d \<and> length h \<le> r \<and> length h \<le> t \<and> length h \<le> new"
proof -
  from assms obtain d rt t ds rs ts where
    o: "deref h old = Some (GraphObj d rt t)"
    and d: "deref h d = Some (DepsObj ds)" and r: "deref h rt = Some (StrArray rs)"
    and t: "deref h t = Some (TasksObj ts)"
    and g: "g = \<lparr>tasks = ts, dependencies = ds, roots = rs\<rparr>"
    by (auto simp: graph_at_def split: option.splits obj.splits)
  have ext: "deref (h @ xs) a = deref h a" if "deref h a = Some ob" for a ob xs
    using that by (auto simp: deref_def nth_append split: if_splits)
  have new: "deref (h @ xs) (length h + i) = Some (xs ! i)" if "i < length xs" for xs i
    using that by (simp add: deref_def nth_append)
  let ?ts = "omit u ts c"
  let ?ids = "Object_keys ?ts"
  let ?ds = "zipObject ?ids (map (\<lambda>taskId. difference (map_of ds taskId) c) ?ids)"
  let ?rs = "filter (\<lambda>taskId. case map_of ?ds taskId of Some ds \<Rightarrow> 0 = length ds | None \<Rightarrow> False) ?ids"
  let ?xs = "[TasksObj ?ts, DepsObj ?ds, StrArray ?rs, GraphObj (Suc (length h)) (Suc (Suc (length h))) (length h)]"
  have run: "updateTaskGraph_heap u h old c = Some (h @ ?xs, length h + 3)"
    by (simp add: updateTaskGraph_heap_def o d t alloc_def Let_def)
  have u: "updateTaskGraph_paths u g c = \<lparr>tasks = ?ts, dependencies = ?ds, roots = ?rs\<rparr>"
    by (simp add: updateTaskGraph_paths_def g Let_def)
  have 1: "graph_at (h @ ?xs) old = Some g"
    by (simp add: graph_at_def ext [OF o] ext [OF d] ext [OF r] ext [OF t] o d r t g)
  have n0: "deref (h @ ?xs) (length h) = Some (TasksObj ?ts)"
    using new [of 0 ?xs] by simp
  have n1: "deref (h @ ?xs) (Suc (length h)) = Some (DepsObj ?ds)"
    using new [of 1 ?xs] by simp
  have n2: "deref (h @ ?xs) (Suc (Suc (length h))) = Some (StrArray ?rs)"
    using new [of 2 ?xs] by simp
  have n3: "deref (h @ ?xs) (length h + 3)
      = Some (GraphObj (Suc (length h)) (Suc (Suc (length h))) (length h))"
    using new [of 3 ?xs] by simp
  have 2: "graph_at (h @ ?xs) (length h + 3) = Some (updateTaskGraph_paths u g c)"
    unfolding u by (simp add: graph_at_def n0 n1 n2 n3)
  from run 1 2 n3 show ?thesis by simp
qed

section \<open>Properties of the scheduling loop\<close>

lemma runRoot_undefined:
  "map_of (tasks (todoTaskGraph s)) r = None \<Longrightarrow> runRoot exec s c r = Inl TypeError"
  by (simp add: runRoot_def)

lemma runRoot_Inr:
  assumes "runRoot exec s c r = Inr (s', c')"
  shows "\<exists>t status logged conts.
    map_of (tasks (todoTaskGraph s)) r = Some t
    \<and> s' = s\<lparr>results := AList.update (task_id t) status (results s),
            todo := removeAll (task_id t) (todo s),
            continuedTasks := continuedTasks s @ conts,
            world := snd (exec (world s) (target t) (overrides t)),
            trace := trace s @ [StartTasks t, ScheduleTask t, RunExecutor t]
                       @ logged @ [EndTasks (if Success = status then 0 else 1) status t]\<rparr>
    \<and> (status = Success \<or> status = Failure)
    \<and> (\<forall>e \<in> set logged. \<exists>err. e = LoggerError err)
    \<and> (c' = c \<or> c' = c @ [task_id t])"
proof (cases "map_of (tasks (todoTaskGraph s)) r")
  case None
  with assms show ?thesis by (simp add: runRoot_def)
next
  case (Some t)
  obtain started w' where e: "exec (world s) (target t) (overrides t) = (started, w')"
    by (cases "exec (world s) (target t) (overrides t)")
  show ?thesis
  proof (cases started)
    case (Inl err)
    with assms Some e show ?thesis
      by (intro exI [of _ t] exI [of _ Failure] exI [of _ "[LoggerError err]"] exI [of _ "[]"])
           (auto simp: runRoot_def)
  next
    case (Inr iter)
    obtain first rest where n: "iter_next iter = (first, rest)"
      by (cases "iter_next iter")
    show ?thesis
    proof (cases first)
      case (Inl err)
      with assms Some e Inr n show ?thesis
        by (intro exI [of _ t] exI [of _ Failure] exI [of _ "[LoggerError err]"] exI [of _ "[]"])
           (auto simp: runRoot_def)
    next
      case ev: (Inr event)
      show ?thesis
      proof (cases "ev_value event")
        case None
        with assms Some e Inr n ev show ?thesis
          by (intro exI [of _ t] exI [of _ Failure] exI [of _ "[LoggerError TypeError]"]
                exI [of _ "[]"])
             (auto simp: runRoot_def)
      next
        case (Some success)
        with assms \<open>map_of (tasks (todoTaskGraph s)) r = Some t\<close> e Inr n ev show ?thesis
          by (intro exI [of _ t] exI [of _ "if success then Success else Failure"] exI [of _ "[]"]
                exI [of _ "if \<not> ev_done event then [exhaustAsyncIterator rest event] else []"])
             (auto simp: runRoot_def)
      qed
    qed
  qed
qed

lemma runRoot_defined:
  "map_of (tasks (todoTaskGraph s)) r = Some t \<Longrightarrow> \<exists>s' c'. runRoot exec s c r = Inr (s', c')"
  by (auto simp: runRoot_def Let_def split: prod.splits sum.splits option.splits)

subsection \<open>Traces\<close>

lemma dispatched_append: "dispatched (xs @ ys) = dispatched xs @ dispatched ys"
  by (induction xs rule: dispatched.induct) simp_all

lemma ended_append: "ended (xs @ ys) = ended xs \<union> ended ys"
  by (induction xs rule: ended.induct) simp_all

lemma deps_first_append:
  "deps_first d E (xs @ ys) = (deps_first d E xs \<and> deps_first d (E \<union> ended xs) ys)"
  by (induction d E xs rule: deps_first.induct) simp_all

lemma logged_events:
  assumes "\<forall>e \<in> set logged. \<exists>err. e = LoggerError err"
  shows "dispatched (logged @ es) = dispatched es"
    and "ended (logged @ es) = ended es"
    and "deps_first d E (logged @ es) = deps_first d E es"
  using assms by (induction logged) auto

lemma ended_iff: "i \<in> ended es \<longleftrightarrow> (\<exists>code status t. EndTasks code status t \<in> set es \<and> task_id t = i)"
  by (induction es rule: ended.induct) auto

subsection \<open>One root, one round\<close>

lemma runRoot_facts:
  assumes "runRoot exec s c r = Inr (s', c')"
  shows "\<exists>t new. map_of (tasks (todoTaskGraph s)) r = Some t
    \<and> todoTaskGraph s' = todoTaskGraph s
    \<and> prevSize s' = prevSize s
    \<and> todo s' = removeAll (task_id t) (todo s)
    \<and> trace s' = trace s @ new
    \<and> dispatched new = [task_id t]
    \<and> ended new = {task_id t}
    \<and> (\<forall>d E. deps_first d E new = (set (d (task_id t)) \<subseteq> E))
    \<and> fst ` set (results s') = insert (task_id t) (fst ` set (results s))
    \<and> map_of (results s') (task_id t) \<in> {Some Success, Some Failure}
    \<and> (\<forall>i. i \<noteq> task_id t \<longrightarrow> map_of (results s') i = map_of (results s) i)
    \<and> set c \<subseteq> set c' \<and> set c' \<subseteq> insert (task_id t) (set c)"
proof -
  from runRoot_Inr [OF assms] obtain t status logged conts where
    t: "map_of (tasks (todoTaskGraph s)) r = Some t"
    and s': "s' = s\<lparr>results := AList.update (task_id t) status (results s),
            todo := removeAll (task_id t) (todo s),
            continuedTasks := continuedTasks s @ conts,
            world := snd (exec (world s) (target t) (overrides t)),
            trace := trace s @ [StartTasks t, ScheduleTask t, RunExecutor t]
                       @ logged @ [EndTasks (if Success = status then 0 else 1) status t]\<rparr>"
    and st: "status = Success \<or> status = Failure"
    and lg: "\<forall>e \<in> set logged. \<exists>err. e = LoggerError err"
    and c': "c' = c \<or> c' = c @ [task_id t]"
    by blast
  let ?new = "[StartTasks t, ScheduleTask t, RunExecutor t]
                @ logged @ [EndTasks (if Success = status then 0 else 1) status t]"
  have "dispatched ?new = [task_id t]" "ended ?new = {task_id t}"
    "\<forall>d E. deps_first d E ?new = (set (d (task_id t)) \<subseteq> E)"
    using logged_events [OF lg] by simp_all
  moreover have "trace s' = trace s @ ?new" using s' by simp
  moreover have "fst ` set (results s') = insert (task_id t) (fst ` set (results s))"
    using s' by (simp add: dom_update)
  moreover have "map_of (results s') (task_id t) \<in> {Some Success, Some Failure}"
    using s' st by (auto simp: update_conv')
  moreover have "\<forall>i. i \<noteq> task_id t \<longrightarrow> map_of (results s') i = map_of (results s) i"
    using s' by (simp add: update_conv')
  moreover have "set c \<subseteq> set c' \<and> set c' \<subseteq> insert (task_id t) (set c)"
    using c' by auto
  ultimately show ?thesis using t s' by (intro exI [of _ t] exI [of _ ?new]) simp
qed

lemma nodes_map_of: "r \<in> nodes g \<longleftrightarrow> map_of (tasks g) r \<noteq> None"
  by (simp add: nodes_def Object_keys_def map_of_eq_None_iff)

lemma keyed_by_idD: "keyed_by_id g \<Longrightarrow> map_of (tasks g) r = Some t \<Longrightarrow> task_id t = r"
  by (auto simp: keyed_by_id_def dest: map_of_SomeD)

lemma runRoots_facts:
  assumes "runRoots exec rs s c = Inr (s', c')" and "keyed_by_id (todoTaskGraph s)"
  shows "todoTaskGraph s' = todoTaskGraph s \<and> prevSize s' = prevSize s
    \<and> set rs \<subseteq> nodes (todoTaskGraph s)
    \<and> set (todo s') = set (todo s) - set rs
    \<and> length (todo s') \<le> length (todo s)
    \<and> (\<exists>new. trace s' = trace s @ new \<and> dispatched new = rs \<and> ended new = set rs
           \<and> (\<forall>d E. (\<forall>r \<in> set rs. set (d r) \<subseteq> E) \<longrightarrow> deps_first d E new))
    \<and> fst ` set (results s') = fst ` set (results s) \<union> set rs
    \<and> (\<forall>i \<in> set rs. map_of (results s') i \<in> {Some Success, Some Failure})
    \<and> (\<forall>i. i \<notin> set rs \<longrightarrow> map_of (results s') i = map_of (results s) i)
    \<and> set c \<subseteq> set c' \<and> set c' \<subseteq> set c \<union> set rs"
  using assms
proof (induction rs arbitrary: s c)
  case Nil
  then show ?case by simp
next
  case (Cons r rs)
  from Cons.prems(1) obtain s1 c1 where
    one: "runRoot exec s c r = Inr (s1, c1)" and rest: "runRoots exec rs s1 c1 = Inr (s', c')"
    by (auto split: sum.splits)
  from runRoot_facts [OF one] obtain t new where
    t: "map_of (tasks (todoTaskGraph s)) r = Some t"
    and g1: "todoTaskGraph s1 = todoTaskGraph s"
    and p1: "prevSize s1 = prevSize s"
    and todo1: "todo s1 = removeAll (task_id t) (todo s)"
    and tr1: "trace s1 = trace s @ new"
    and d1: "dispatched new = [task_id t]"
    and e1: "ended new = {task_id t}"
    and f1: "\<forall>d E. deps_first d E new = (set (d (task_id t)) \<subseteq> E)"
    and k1: "fst ` set (results s1) = insert (task_id t) (fst ` set (results s))"
    and v1: "map_of (results s1) (task_id t) \<in> {Some Success, Some Failure}"
    and o1: "\<forall>i. i \<noteq> task_id t \<longrightarrow> map_of (results s1) i = map_of (results s) i"
    and c1: "set c \<subseteq> set c1 \<and> set c1 \<subseteq> insert (task_id t) (set c)"
    by (elim exE conjE) (rule that, (assumption | rule conjI)+)
  from Cons.prems(2) t have id: "task_id t = r" by (rule keyed_by_idD)
  from Cons.prems(2) g1 have "keyed_by_id (todoTaskGraph s1)" by simp
  from Cons.IH [OF rest this] obtain new' where
    g2: "todoTaskGraph s' = todoTaskGraph s1"
    and p2: "prevSize s' = prevSize s1"
    and n2: "set rs \<subseteq> nodes (todoTaskGraph s1)"
    and todo2: "set (todo s') = set (todo s1) - set rs"
    and len2: "length (todo s') \<le> length (todo s1)"
    and tr2: "trace s' = trace s1 @ new'"
    and d2: "dispatched new' = rs"
    and e2: "ended new' = set rs"
    and f2: "\<forall>d E. (\<forall>r \<in> set rs. set (d r) \<subseteq> E) \<longrightarrow> deps_first d E new'"
    and k2: "fst ` set (results s') = fst ` set (results s1) \<union> set rs"
    and v2: "\<forall>i \<in> set rs. map_of (results s') i \<in> {Some Success, Some Failure}"
    and o2: "\<forall>i. i \<notin> set rs \<longrightarrow> map_of (results s') i = map_of (results s1) i"
    and c2: "set c1 \<subseteq> set c' \<and> set c' \<subseteq> set c1 \<union> set rs"
    by (elim exE conjE) (rule that, (assumption | rule conjI)+)
  have a: "todoTaskGraph s' = todoTaskGraph s \<and> prevSize s' = prevSize s"
    using g1 g2 p1 p2 by simp
  have b: "set (r # rs) \<subseteq> nodes (todoTaskGraph s)"
    using n2 g1 t by (simp add: nodes_map_of)
  have c: "set (todo s') = set (todo s) - set (r # rs)"
    using todo1 todo2 id by auto
  have "length (todo s1) \<le> length (todo s)"
    unfolding todo1 by (rule length_removeAll_less_eq)
  with len2 have d: "length (todo s') \<le> length (todo s)" by simp
  have "deps_first d E (new @ new')" if "\<forall>x \<in> set (r # rs). set (d x) \<subseteq> E" for d E
  proof -
    from that have "\<forall>x \<in> set rs. set (d x) \<subseteq> E \<union> ended new" by auto
    with f2 have "deps_first d (E \<union> ended new) new'" by blast
    moreover from that f1 id have "deps_first d E new" by simp
    ultimately show ?thesis by (simp add: deps_first_append)
  qed
  then have e: "\<exists>n. trace s' = trace s @ n \<and> dispatched n = r # rs \<and> ended n = set (r # rs)
           \<and> (\<forall>d E. (\<forall>x \<in> set (r # rs). set (d x) \<subseteq> E) \<longrightarrow> deps_first d E n)"
    using tr1 tr2 d1 d2 e1 e2 id
    by (intro exI [of _ "new @ new'"]) (simp add: dispatched_append ended_append)
  have f: "fst ` set (results s') = fst ` set (results s) \<union> set (r # rs)"
    using k1 k2 id by auto
  have g: "\<forall>i \<in> set (r # rs). map_of (results s') i \<in> {Some Success, Some Failure}"
  proof
    fix i assume "i \<in> set (r # rs)"
    show "map_of (results s') i \<in> {Some Success, Some Failure}"
    proof (cases "i \<in> set rs")
      case True
      with v2 show ?thesis by blast
    next
      case False
      with \<open>i \<in> set (r # rs)\<close> have "i = r" by simp
      with False o2 v1 id show ?thesis by simp
    qed
  qed
  have h: "\<forall>i. i \<notin> set (r # rs) \<longrightarrow> map_of (results s') i = map_of (results s) i"
    using o1 o2 id by simp
  have i: "set c \<subseteq> set c' \<and> set c' \<subseteq> set c \<union> set (r # rs)"
    using c1 c2 id by auto
  from a b c d e f g h i show ?case by (intro conjI) (simp_all only:)
qed

lemma runRoots_defined:
  "set rs \<subseteq> nodes (todoTaskGraph s) \<Longrightarrow> \<exists>s' c'. runRoots exec rs s c = Inr (s', c')"
proof (induction rs arbitrary: s c)
  case Nil
  then show ?case by simp
next
  case (Cons r rs)
  then obtain t where "map_of (tasks (todoTaskGraph s)) r = Some t"
    by (auto simp: nodes_map_of)
  from runRoot_defined [OF this] obtain s1 c1 where one: "runRoot exec s c r = Inr (s1, c1)"
    by blast
  from runRoot_facts [OF one] have "todoTaskGraph s1 = todoTaskGraph s"
    by (elim exE conjE)
  with Cons.prems have "set rs \<subseteq> nodes (todoTaskGraph s1)" by simp
  from Cons.IH [OF this, of c1] obtain s' c' where "runRoots exec rs s1 c1 = Inr (s', c')"
    by blast
  with one show ?case by simp
qed

lemma runLoop_unfold:
  "runLoop exec s =
     (if 0 < length (todo s) \<and> prevSize s > length (todo s) then
        (case runRoots exec (roots (todoTaskGraph s)) (s\<lparr>prevSize := length (todo s)\<rparr>) [] of
           Inl err \<Rightarrow> Inl err
         | Inr (s', completed) \<Rightarrow>
             runLoop exec (s'\<lparr>todoTaskGraph := updateTaskGraph (todoTaskGraph s') completed\<rparr>))
      else Inr s)"
  by (rule runLoop.simps)

lemma runLoop_stop:
  "\<not> (0 < length (todo s) \<and> prevSize s > length (todo s)) \<Longrightarrow> runLoop exec s = Inr s"
  by (subst runLoop_unfold) (simp only: if_False)

lemma runLoop_round:
  "0 < length (todo s) \<Longrightarrow> prevSize s > length (todo s) \<Longrightarrow>
   runRoots exec (roots (todoTaskGraph s)) (s\<lparr>prevSize := length (todo s)\<rparr>) [] = Inr (b, c) \<Longrightarrow>
   runLoop exec s = runLoop exec (b\<lparr>todoTaskGraph := updateTaskGraph (todoTaskGraph b) c\<rparr>)"
  by (subst runLoop_unfold) (simp only: simp_thms if_True sum.case prod.case)

lemma runLoop_fail:
  "0 < length (todo s) \<Longrightarrow> prevSize s > length (todo s) \<Longrightarrow>
   runRoots exec (roots (todoTaskGraph s)) (s\<lparr>prevSize := length (todo s)\<rparr>) [] = Inl err \<Longrightarrow>
   runLoop exec s = Inl err"
  by (subst runLoop_unfold) (simp only: simp_thms if_True sum.case)

lemma runLoop_invariant:
  assumes "runLoop exec s = Inr s'" and "I s"
    and "\<And>a b c. I a \<Longrightarrow> 0 < length (todo a) \<Longrightarrow> length (todo a) < prevSize a \<Longrightarrow>
      runRoots exec (roots (todoTaskGraph a)) (a\<lparr>prevSize := length (todo a)\<rparr>) [] = Inr (b, c)
      \<Longrightarrow> I (b\<lparr>todoTaskGraph := updateTaskGraph (todoTaskGraph b) c\<rparr>)"
  shows "I s'"
  using assms
proof (induction exec s rule: runLoop.induct)
  case (1 exec s)
  show ?case
  proof (cases "0 < length (todo s) \<and> prevSize s > length (todo s)")
    case False
    then have "runLoop exec s = Inr s" by (rule runLoop_stop)
    with "1.prems"(1,2) show ?thesis by simp
  next
    case True
    show ?thesis
    proof (cases "runRoots exec (roots (todoTaskGraph s)) (s\<lparr>prevSize := length (todo s)\<rparr>) []")
      case (Inl err)
      with True have "runLoop exec s = Inl err" by (simp only: runLoop_fail)
      with "1.prems"(1) show ?thesis by simp
    next
      case (Inr x)
      obtain b c where x: "x = (b, c)" by (cases x)
      with Inr have round:
        "runRoots exec (roots (todoTaskGraph s)) (s\<lparr>prevSize := length (todo s)\<rparr>) [] = Inr (b, c)"
        by simp
      with True "1.prems"(1)
      have rest: "runLoop exec (b\<lparr>todoTaskGraph := updateTaskGraph (todoTaskGraph b) c\<rparr>) = Inr s'"
        by (simp only: runLoop_round)
      from True have t1: "0 < length (todo s)" and t2: "length (todo s) < prevSize s" by simp_all
      from "1.prems"(3) [OF "1.prems"(2) t1 t2 round]
      have "I (b\<lparr>todoTaskGraph := updateTaskGraph (todoTaskGraph b) c\<rparr>)" .
      from "1.IH" [OF True round refl rest this "1.prems"(3)] show ?thesis .
    qed
  qed
qed

lemma roots_nodes_updateTaskGraph:
  "set (roots (updateTaskGraph g c)) \<subseteq> nodes (updateTaskGraph g c)"
  by (auto simp: set_roots_updateTaskGraph)

lemma runRoots_graph:
  "runRoots exec rs s c = Inr (s', c') \<Longrightarrow> todoTaskGraph s' = todoTaskGraph s"
proof (induction rs arbitrary: s c)
  case Nil
  then show ?case by simp
next
  case (Cons r rs)
  from Cons.prems obtain s1 c1 where
    one: "runRoot exec s c r = Inr (s1, c1)" and rest: "runRoots exec rs s1 c1 = Inr (s', c')"
    by (auto split: sum.splits)
  from runRoot_facts [OF one] have "todoTaskGraph s1 = todoTaskGraph s"
    by (elim exE conjE)
  with Cons.IH [OF rest] show ?case by simp
qed

lemma runLoop_total:
  "set (roots (todoTaskGraph s)) \<subseteq> nodes (todoTaskGraph s) \<Longrightarrow> \<exists>s'. runLoop exec s = Inr s'"
proof (induction exec s rule: runLoop.induct)
  case (1 exec s)
  show ?case
  proof (cases "0 < length (todo s) \<and> prevSize s > length (todo s)")
    case False
    then have "runLoop exec s = Inr s" by (rule runLoop_stop)
    then show ?thesis by simp
  next
    case True
    from "1.prems"
    have "set (roots (todoTaskGraph s)) \<subseteq> nodes (todoTaskGraph (s\<lparr>prevSize := length (todo s)\<rparr>))"
      by simp
    from runRoots_defined [OF this, of exec "[]"] obtain b c where round:
      "runRoots exec (roots (todoTaskGraph s)) (s\<lparr>prevSize := length (todo s)\<rparr>) [] = Inr (b, c)"
      by blast
    have "set (roots (todoTaskGraph (b\<lparr>todoTaskGraph := updateTaskGraph (todoTaskGraph b) c\<rparr>)))
        \<subseteq> nodes (todoTaskGraph (b\<lparr>todoTaskGraph := updateTaskGraph (todoTaskGraph b) c\<rparr>))"
      by (simp add: roots_nodes_updateTaskGraph)
    from "1.IH" [OF True round refl this] obtain s' where
      "runLoop exec (b\<lparr>todoTaskGraph := updateTaskGraph (todoTaskGraph b) c\<rparr>) = Inr s'"
      by blast
    with True round have "runLoop exec s = Inr s'" by (simp only: runLoop_round)
    then show ?thesis by blast
  qed
qed

lemma results_initial_state:
  "map_of (results (initial_state ts g w)) i
     = (if i \<in> task_id ` set ts then Some Skipped else None)"
proof -
  have "map (\<lambda>t. Skipped) ts = map (\<lambda>k. Skipped) (map task_id ts)" by simp
  then have "results (initial_state ts g w)
      = zipObject (map task_id ts) (map (\<lambda>k. Skipped) (map task_id ts))"
    by (simp only: initial_state_def run_state.simps)
  then show ?thesis by (simp only: zipObject_lookup set_map)
qed

lemma keys_results_initial_state:
  "fst ` set (results (initial_state ts g w)) = task_id ` set ts"
proof -
  have "dom (map_of (results (initial_state ts g w))) = task_id ` set ts"
    by (auto simp: results_initial_state dom_def)
  then show ?thesis by (simp add: dom_map_of_conv_image_fst)
qed

lemma runLoop_no_roots:
  assumes "roots g = []"
  shows "runLoop exec (initial_state ts g w) =
    Inr (if ts = [] then initial_state ts g w
         else (initial_state ts g w)\<lparr>prevSize := length (remdups (map task_id ts)),
                                     todoTaskGraph := updateTaskGraph g []\<rparr>)"
proof (cases "ts = []")
  case True
  then have "\<not> (0 < length (todo (initial_state ts g w))
      \<and> prevSize (initial_state ts g w) > length (todo (initial_state ts g w)))"
    by (simp add: initial_state_def)
  from runLoop_stop [OF this] True show ?thesis by simp
next
  case False
  let ?s = "initial_state ts g w"
  let ?b = "?s\<lparr>prevSize := length (todo ?s)\<rparr>"
  from False have pos: "0 < length (todo ?s)" by (simp add: initial_state_def)
  have lt: "prevSize ?s > length (todo ?s)" by (simp add: initial_state_def)
  have "runRoots exec (roots (todoTaskGraph ?s)) ?b [] = Inr (?b, [])"
    using assms by (simp add: initial_state_def)
  from runLoop_round [OF pos lt this]
  have "runLoop exec ?s = runLoop exec (?b\<lparr>todoTaskGraph := updateTaskGraph (todoTaskGraph ?b) []\<rparr>)" .
  also have "\<dots> = Inr (?b\<lparr>todoTaskGraph := updateTaskGraph (todoTaskGraph ?b) []\<rparr>)"
    by (rule runLoop_stop) simp
  finally show ?thesis using False by (simp add: initial_state_def)
qed

lemma cyclic_no_roots:
  assumes "roots_invariant g" and "set (roots g) \<subseteq> task_id ` set ts"
    and "\<forall>t \<in> set ts. (task_id t, task_id t) \<in> (depRel g)\<^sup>+"
  shows "roots g = []"
proof (rule ccontr)
  assume "roots g \<noteq> []"
  then obtain r where r: "r \<in> set (roots g)" by (cases "roots g") auto
  with assms(2,3) have "(r, r) \<in> (depRel g)\<^sup>+" by auto
  then obtain y where "(y, r) \<in> depRel g" by (blast dest: tranclD2)
  then have "deps_of g r \<noteq> []" by (auto simp: depRel_def)
  with assms(1) r show False by (simp add: roots_invariant_def)
qed

lemma depRel_graph_cycle: "depRel graph_cycle = {(''B'', ''A''), (''A'', ''B'')}"
  by (auto simp: depRel_def nodes_def Object_keys_def deps_of_def difference_def graph_cycle_def
      split: if_splits)

lemma runRoot_event:
  assumes "map_of (tasks (todoTaskGraph s)) r = Some t"
    and "fst (exec (world s) (target t) (overrides t)) = Inr iter"
    and "iter_next iter = (Inr event, rest)"
    and "ev_value event = Some success"
  shows "runRoot exec s c r =
    Inr (s\<lparr>results := AList.update (task_id t) (if success then Success else Failure) (results s),
           todo := removeAll (task_id t) (todo s),
           continuedTasks := continuedTasks s
             @ (if \<not> ev_done event then [exhaustAsyncIterator rest event] else []),
           world := snd (exec (world s) (target t) (overrides t)),
           trace := trace s @ [StartTasks t, ScheduleTask t, RunExecutor t,
                      EndTasks (if success then 0 else 1) (if success then Success else Failure) t]\<rparr>,
         c @ [task_id t])"
  using assms by (cases "exec (world s) (target t) (overrides t)") (simp add: runRoot_def)

lemma runRoot_thrown:
  assumes "map_of (tasks (todoTaskGraph s)) r = Some t"
    and "fst (exec (world s) (target t) (overrides t)) = Inl err
       \<or> (\<exists>iter rest. fst (exec (world s) (target t) (overrides t)) = Inr iter
            \<and> iter_next iter = (Inl err, rest))
       \<or> (\<exists>iter event rest. fst (exec (world s) (target t) (overrides t)) = Inr iter
            \<and> iter_next iter = (Inr event, rest) \<and> ev_value event = None \<and> err = TypeError)"
  shows "runRoot exec s c r =
    Inr (s\<lparr>results := AList.update (task_id t) Failure (results s),
           todo := removeAll (task_id t) (todo s),
           continuedTasks := continuedTasks s,
           world := snd (exec (world s) (target t) (overrides t)),
           trace := trace s @ [StartTasks t, ScheduleTask t, RunExecutor t, LoggerError err,
                      EndTasks 1 Failure t]\<rparr>,
         c)"
  using assms by (cases "exec (world s) (target t) (overrides t)") (auto simp: runRoot_def)

lemma fold_updateTaskGraph:
  "cs \<noteq> [] \<Longrightarrow> fold (\<lambda>c g. updateTaskGraph g c) cs g = updateTaskGraph g (concat cs)"
proof (induction cs arbitrary: g)
  case Nil
  then show ?case by simp
next
  case (Cons c cs)
  show ?case
  proof (cases "cs = []")
    case True
    then show ?thesis by simp
  next
    case False
    with Cons.IH [of "updateTaskGraph g c"] show ?thesis
      by (simp add: updateTaskGraph_twice)
  qed
qed

lemma uncompleted_blocks:
  assumes "r \<in> nodes g" and "r \<notin> set c"
  shows "r \<in> nodes (updateTaskGraph g c)"
    and "r \<in> set (deps_of g k) \<Longrightarrow> k \<notin> set (roots (updateTaskGraph g c))"
proof -
  from assms show "r \<in> nodes (updateTaskGraph g c)"
    by (simp add: nodes_updateTaskGraph)
  assume d: "r \<in> set (deps_of g k)"
  show "k \<notin> set (roots (updateTaskGraph g c))"
  proof
    assume "k \<in> set (roots (updateTaskGraph g c))"
    then have "k \<in> nodes g - set c" and "deps_of (updateTaskGraph g c) k = []"
      by (simp_all add: set_roots_updateTaskGraph nodes_updateTaskGraph)
    then have "filter (\<lambda>d. d \<notin> set c) (deps_of g k) = []"
      by (simp add: deps_of_updateTaskGraph)
    with d assms(2) show False by (auto simp: filter_empty_conv)
  qed
qed

lemma keyed_by_id_updateTaskGraph: "keyed_by_id g \<Longrightarrow> keyed_by_id (updateTaskGraph g c)"
  by (auto simp: keyed_by_id_def tasks_updateTaskGraph omit_names_def)

lemma roots_invariant_updateTaskGraph: "roots_invariant (updateTaskGraph g c)"
  by (simp add: roots_invariant_def set_roots_updateTaskGraph)

lemma deps_first_invariant:
  assumes loop: "runLoop exec s = Inr s'"
    and k: "keyed_by_id (todoTaskGraph s)" and r: "roots_invariant (todoTaskGraph s)"
    and f: "deps_first d {} (trace s)"
    and u: "\<forall>k \<in> nodes (todoTaskGraph s). set (d k) \<subseteq> set (deps_of (todoTaskGraph s) k) \<union> ended (trace s)"
    and v: "\<forall>i \<in> ended (trace s). map_of (results s) i \<in> {Some Success, Some Failure}"
  shows "deps_first d {} (trace s')
    \<and> (\<forall>i \<in> ended (trace s'). map_of (results s') i \<in> {Some Success, Some Failure})"
proof -
  define I where "I = (\<lambda>a :: ('a, 'b, 'c) run_state.
    keyed_by_id (todoTaskGraph a) \<and> roots_invariant (todoTaskGraph a)
    \<and> deps_first d {} (trace a)
    \<and> (\<forall>k \<in> nodes (todoTaskGraph a). set (d k) \<subseteq> set (deps_of (todoTaskGraph a) k) \<union> ended (trace a))
    \<and> (\<forall>i \<in> ended (trace a). map_of (results a) i \<in> {Some Success, Some Failure}))"
  have init: "I s" unfolding I_def using k r f u v by simp
  have step: "I (b\<lparr>todoTaskGraph := updateTaskGraph (todoTaskGraph b) c\<rparr>)"
    if a: "I a"
      and round: "runRoots exec (roots (todoTaskGraph a)) (a\<lparr>prevSize := length (todo a)\<rparr>) [] = Inr (b, c)"
    for a b c
  proof -
    let ?g = "todoTaskGraph a" and ?rs = "roots (todoTaskGraph a)"
    from a have ka: "keyed_by_id ?g" and ra: "roots_invariant ?g"
      and fa: "deps_first d {} (trace a)"
      and ua: "\<forall>k \<in> nodes ?g. set (d k) \<subseteq> set (deps_of ?g k) \<union> ended (trace a)"
      and va: "\<forall>i \<in> ended (trace a). map_of (results a) i \<in> {Some Success, Some Failure}"
      unfolding I_def by simp_all
    from ka have "keyed_by_id (todoTaskGraph (a\<lparr>prevSize := length (todo a)\<rparr>))" by simp
    from runRoots_facts [OF round this] obtain new where
      gb: "todoTaskGraph b = ?g"
      and tr: "trace b = trace a @ new"
      and en: "ended new = set ?rs"
      and df: "\<forall>d E. (\<forall>r \<in> set ?rs. set (d r) \<subseteq> E) \<longrightarrow> deps_first d E new"
      and rv: "\<forall>i \<in> set ?rs. map_of (results b) i \<in> {Some Success, Some Failure}"
      and ro: "\<forall>i. i \<notin> set ?rs \<longrightarrow> map_of (results b) i = map_of (results a) i"
      and cs: "set c \<subseteq> set [] \<union> set ?rs"
      by (elim exE conjE) (rule that, simp_all)
    have "\<forall>r \<in> set ?rs. set (d r) \<subseteq> ended (trace a)"
    proof
      fix r assume "r \<in> set ?rs"
      with ra have "r \<in> nodes ?g" and "deps_of ?g r = []"
        by (simp_all add: roots_invariant_def)
      with ua show "set (d r) \<subseteq> ended (trace a)" by fastforce
    qed
    with df have "deps_first d ({} \<union> ended (trace a)) new" by simp
    with fa tr have 1: "deps_first d {} (trace b)"
      by (simp add: deps_first_append)
    have 2: "\<forall>k \<in> nodes (updateTaskGraph ?g c).
        set (d k) \<subseteq> set (deps_of (updateTaskGraph ?g c) k) \<union> ended (trace b)"
    proof
      fix k assume kn: "k \<in> nodes (updateTaskGraph ?g c)"
      then have kg: "k \<in> nodes ?g - set c" by (simp add: nodes_updateTaskGraph)
      then have "set (deps_of ?g k) \<subseteq> set (deps_of (updateTaskGraph ?g c) k) \<union> set c"
        by (auto simp: deps_of_updateTaskGraph)
      moreover from kg ua have "set (d k) \<subseteq> set (deps_of ?g k) \<union> ended (trace a)" by simp
      moreover from cs en tr have "set c \<subseteq> ended (trace b)" "ended (trace a) \<subseteq> ended (trace b)"
        by (auto simp: ended_append)
      ultimately show "set (d k) \<subseteq> set (deps_of (updateTaskGraph ?g c) k) \<union> ended (trace b)"
        by blast
    qed
    have 3: "\<forall>i \<in> ended (trace b). map_of (results b) i \<in> {Some Success, Some Failure}"
    proof
      fix i assume "i \<in> ended (trace b)"
      with tr en have "i \<in> ended (trace a) \<or> i \<in> set ?rs" by (auto simp: ended_append)
      then show "map_of (results b) i \<in> {Some Success, Some Failure}"
      proof (cases "i \<in> set ?rs")
        case True
        with rv show ?thesis by blast
      next
        case False
        with \<open>i \<in> ended (trace a) \<or> i \<in> set ?rs\<close> have "i \<in> ended (trace a)" by simp
        with va ro False show ?thesis by simp
      qed
    qed
    from ka 1 2 3 show ?thesis
      unfolding I_def
      by (simp add: gb keyed_by_id_updateTaskGraph roots_invariant_updateTaskGraph)
  qed
  have "I s'"
    by (rule runLoop_invariant [where I = I, OF loop init]) (rule step)
  then show ?thesis unfolding I_def by simp
qed

lemma runRoots_order:
  "keyed_by_id (todoTaskGraph s) \<Longrightarrow> runRoots exec rs s c = Inr (s', c') \<Longrightarrow>
     dispatched (trace s') = dispatched (trace s) @ rs"
proof -
  assume k: "keyed_by_id (todoTaskGraph s)" and r: "runRoots exec rs s c = Inr (s', c')"
  from runRoots_facts [OF r k] obtain new where
    "trace s' = trace s @ new" and "dispatched new = rs"
    by (elim exE conjE) (rule that, simp_all)
  then show ?thesis by (simp add: dispatched_append)
qed

subsection \<open>Rounds with an adapter that keeps its contract\<close>

lemma yields_firstD:
  "yields_first x \<Longrightarrow> \<exists>event rest success. x = Inr (Inr event # rest)
     \<and> ev_value event = Some success \<and> exhaustAsyncIterator rest event = Inr ()"
  by (induction x rule: yields_first.induct) auto

lemma runRoot_yields:
  assumes "\<forall>w tg ov. yields_first (fst (exec w tg ov))"
    and t: "map_of (tasks (todoTaskGraph s)) r = Some t"
  shows "\<exists>s'. runRoot exec s c r = Inr (s', c @ [task_id t])
    \<and> set (continuedTasks s') \<subseteq> insert (Inr ()) (set (continuedTasks s))"
proof -
  from assms(1) have "yields_first (fst (exec (world s) (target t) (overrides t)))" by blast
  from yields_firstD [OF this] obtain event rest success where
    e: "fst (exec (world s) (target t) (overrides t)) = Inr (Inr event # rest)"
    and v: "ev_value event = Some success"
    and x: "exhaustAsyncIterator rest event = Inr ()"
    by blast
  have n: "iter_next (Inr event # rest) = (Inr event, rest)" by simp
  from runRoot_event [where exec = exec and c = c, OF t e n v] x show ?thesis
    by auto
qed

lemma runRoots_yields:
  assumes "\<forall>w tg ov. yields_first (fst (exec w tg ov))"
    and "keyed_by_id (todoTaskGraph s)" and "runRoots exec rs s c = Inr (s', c')"
  shows "c' = c @ rs \<and> set (continuedTasks s') \<subseteq> insert (Inr ()) (set (continuedTasks s))"
  using assms(2,3)
proof (induction rs arbitrary: s c)
  case Nil
  then show ?case by auto
next
  case (Cons r rs)
  from Cons.prems(2) obtain s1 c1 where
    one: "runRoot exec s c r = Inr (s1, c1)" and rest: "runRoots exec rs s1 c1 = Inr (s', c')"
    by (auto split: sum.splits)
  from runRoot_facts [OF one] obtain t where
    t: "map_of (tasks (todoTaskGraph s)) r = Some t" and g: "todoTaskGraph s1 = todoTaskGraph s"
    by (elim exE conjE) (rule that)
  from Cons.prems(1) t have id: "task_id t = r" by (rule keyed_by_idD)
  from runRoot_yields [OF assms(1) t, of c] one id
  have c1: "c1 = c @ [r]"
    and k1: "set (continuedTasks s1) \<subseteq> insert (Inr ()) (set (continuedTasks s))"
    by auto
  from Cons.prems(1) g have "keyed_by_id (todoTaskGraph s1)" by simp
  from Cons.IH [OF this rest] c1 k1 show ?case by auto
qed

lemma runRoots_progress:
  assumes "keyed_by_id (todoTaskGraph s)" and "runRoots exec rs s c = Inr (s', c')"
    and "x \<in> set rs" and "x \<in> set (todo s)"
  shows "length (todo s') < length (todo s)"
  using assms
proof (induction rs arbitrary: s c)
  case Nil
  then show ?case by simp
next
  case (Cons r rs)
  from Cons.prems(2) obtain s1 c1 where
    one: "runRoot exec s c r = Inr (s1, c1)" and rest: "runRoots exec rs s1 c1 = Inr (s', c')"
    by (auto split: sum.splits)
  from runRoot_facts [OF one] obtain t where
    t: "map_of (tasks (todoTaskGraph s)) r = Some t" and g: "todoTaskGraph s1 = todoTaskGraph s"
    and todo1: "todo s1 = removeAll (task_id t) (todo s)"
    by (elim exE conjE) (rule that)
  from Cons.prems(1) t have id: "task_id t = r" by (rule keyed_by_idD)
  from Cons.prems(1) g have k1: "keyed_by_id (todoTaskGraph s1)" by simp
  from runRoots_facts [OF rest k1] have le: "length (todo s') \<le> length (todo s1)"
    by (elim conjE)
  have le1: "length (todo s1) \<le> length (todo s)"
    unfolding todo1 by (rule length_removeAll_less_eq)
  show ?case
  proof (cases "x = r")
    case True
    with Cons.prems(4) have "length (todo s1) < length (todo s)"
      unfolding todo1 id by (simp add: length_removeAll_less)
    with le show ?thesis by simp
  next
    case False
    with Cons.prems(3,4) have "x \<in> set rs" and "x \<in> set (todo s1)"
      unfolding todo1 id by simp_all
    from Cons.IH [OF k1 rest this] le1 show ?thesis by simp
  qed
qed

subsection \<open>Acyclic, fully declared graphs\<close>

lemma fully_declared_updateTaskGraph:
  "fully_declared g \<Longrightarrow> fully_declared (updateTaskGraph g c)"
  by (auto simp: fully_declared_def nodes_updateTaskGraph deps_of_updateTaskGraph)

lemma depRel_updateTaskGraph: "depRel (updateTaskGraph g c) \<subseteq> depRel g"
  by (auto simp: depRel_def nodes_updateTaskGraph deps_of_updateTaskGraph split: if_splits)

lemma acyclic_updateTaskGraph:
  "acyclic (depRel g) \<Longrightarrow> acyclic (depRel (updateTaskGraph g c))"
  by (rule acyclic_subset [OF _ depRel_updateTaskGraph])

lemma roots_exact_updateTaskGraph: "roots_exact (updateTaskGraph g c)"
  by (simp add: roots_exact_def set_roots_updateTaskGraph)

lemma finite_depRel: "finite (depRel g)"
proof -
  have "depRel g \<subseteq> (\<Union>k \<in> nodes g. set (deps_of g k)) \<times> nodes g"
    by (auto simp: depRel_def)
  moreover have "finite ((\<Union>k \<in> nodes g. set (deps_of g k)) \<times> nodes g)"
    by (simp add: nodes_def)
  ultimately show ?thesis by (rule finite_subset)
qed

lemma exists_root:
  assumes "nodes g \<noteq> {}" and "acyclic (depRel g)" and "fully_declared g"
  shows "\<exists>k \<in> nodes g. deps_of g k = []"
proof -
  from finite_depRel assms(2) have "wf (depRel g)" by (rule finite_acyclic_wf)
  moreover from assms(1) obtain x where "x \<in> nodes g" by blast
  ultimately obtain z where z: "z \<in> nodes g" and m: "\<And>y. (y, z) \<in> depRel g \<Longrightarrow> y \<notin> nodes g"
    by (rule wfE_min) blast
  have "deps_of g z = []"
  proof (rule ccontr)
    assume "deps_of g z \<noteq> []"
    then obtain y where y: "y \<in> set (deps_of g z)" by (cases "deps_of g z") auto
    with z have "(y, z) \<in> depRel g" by (simp add: depRel_def)
    from m [OF this] have "y \<notin> nodes g" .
    moreover from assms(3) z y have "y \<in> nodes g" by (auto simp: fully_declared_def)
    ultimately show False by contradiction
  qed
  with z show ?thesis by blast
qed

lemma Promise_all_fulfilled: "set ps \<subseteq> {Inr ()} \<Longrightarrow> \<exists>u. Promise_all ps = Inr u"
proof (induction ps)
  case Nil
  then show ?case by simp
next
  case (Cons p ps)
  then have "p = Inr ()" and "set ps \<subseteq> {Inr ()}" by simp_all
  with Cons.IH show ?case by auto
qed

lemma run_invariant_round:
  assumes good: "\<forall>w tg ov. yields_first (fst (exec w tg ov))"
    and inv: "run_invariant ids a" and pos: "0 < length (todo a)"
    and round: "runRoots exec (roots (todoTaskGraph a)) (a\<lparr>prevSize := p\<rparr>) [] = Inr (b, c)"
  shows "run_invariant ids (b\<lparr>todoTaskGraph := updateTaskGraph (todoTaskGraph b) c\<rparr>)"
    and "length (todo b) < length (todo a)" and "prevSize b = p"
proof -
  let ?g = "todoTaskGraph a" and ?rs = "roots (todoTaskGraph a)" and ?a = "a\<lparr>prevSize := p\<rparr>"
  from inv have k: "keyed_by_id ?g" and re: "roots_exact ?g" and fd: "fully_declared ?g"
    and ac: "acyclic (depRel ?g)" and td: "set (todo a) = nodes ?g" and sub: "nodes ?g \<subseteq> ids"
    and keys: "fst ` set (results a) = ids"
    and dn: "\<forall>i \<in> ids - nodes ?g. map_of (results a) i \<in> {Some Success, Some Failure}"
    and ct: "set (continuedTasks a) \<subseteq> {Inr ()}"
    unfolding run_invariant_def by simp_all
  from k have ka: "keyed_by_id (todoTaskGraph ?a)" by simp
  from runRoots_facts [OF round ka] have
    gb: "todoTaskGraph b = ?g" and pb: "prevSize b = p"
    and rn: "set ?rs \<subseteq> nodes ?g"
    and tb: "set (todo b) = set (todo a) - set ?rs"
    and kb: "fst ` set (results b) = fst ` set (results a) \<union> set ?rs"
    and rv: "\<forall>i \<in> set ?rs. map_of (results b) i \<in> {Some Success, Some Failure}"
    and ro: "\<forall>i. i \<notin> set ?rs \<longrightarrow> map_of (results b) i = map_of (results a) i"
    by simp_all
  from runRoots_yields [OF good ka round]
  have c: "c = ?rs" and cb: "set (continuedTasks b) \<subseteq> insert (Inr ()) (set (continuedTasks a))"
    by simp_all
  show "prevSize b = p" by (rule pb)
  from pos td have "nodes ?g \<noteq> {}" by auto
  from exists_root [OF this ac fd] obtain x where "x \<in> nodes ?g" and "deps_of ?g x = []"
    by blast
  with re td have "x \<in> set ?rs" and "x \<in> set (todo ?a)"
    by (simp_all add: roots_exact_def)
  from runRoots_progress [OF ka round this] show "length (todo b) < length (todo a)" by simp
  let ?g' = "updateTaskGraph ?g c"
  have n': "nodes ?g' = nodes ?g - set ?rs" by (simp add: nodes_updateTaskGraph c)
  have 1: "set (todo b) = nodes ?g'" using tb td n' by simp
  have 2: "nodes ?g' \<subseteq> ids" using n' sub by auto
  have 3: "fst ` set (results b) = ids" using kb keys rn sub by auto
  have 4: "\<forall>i \<in> ids - nodes ?g'. map_of (results b) i \<in> {Some Success, Some Failure}"
  proof
    fix i assume i: "i \<in> ids - nodes ?g'"
    show "map_of (results b) i \<in> {Some Success, Some Failure}"
    proof (cases "i \<in> set ?rs")
      case True
      with rv show ?thesis by blast
    next
      case False
      with i n' have "i \<in> ids - nodes ?g" by auto
      with dn ro False show ?thesis by simp
    qed
  qed
  have 5: "set (continuedTasks b) \<subseteq> {Inr ()}" using cb ct by auto
  from k re fd ac 1 2 3 4 5
  show "run_invariant ids (b\<lparr>todoTaskGraph := updateTaskGraph (todoTaskGraph b) c\<rparr>)"
    unfolding run_invariant_def
    by (simp add: gb keyed_by_id_updateTaskGraph roots_exact_updateTaskGraph
        fully_declared_updateTaskGraph acyclic_updateTaskGraph)
qed

lemma runLoop_completes:
  assumes good: "\<forall>w tg ov. yields_first (fst (exec w tg ov))"
    and "run_invariant ids s" and "todo s = [] \<or> length (todo s) < prevSize s"
  shows "\<exists>s'. runLoop exec s = Inr s' \<and> run_invariant ids s' \<and> todo s' = []"
  using assms(2,3)
proof (induction "length (todo s)" arbitrary: s rule: less_induct)
  case less
  show ?case
  proof (cases "todo s = []")
    case True
    then have "runLoop exec s = Inr s" by (intro runLoop_stop) simp
    with True less.prems(1) show ?thesis by simp
  next
    case False
    with less.prems(2) have pos: "0 < length (todo s)" and lt: "length (todo s) < prevSize s"
      by simp_all
    from less.prems(1) have "set (roots (todoTaskGraph s)) \<subseteq> nodes (todoTaskGraph s)"
      by (auto simp: run_invariant_def roots_exact_def)
    then have "set (roots (todoTaskGraph s)) \<subseteq> nodes (todoTaskGraph (s\<lparr>prevSize := length (todo s)\<rparr>))"
      by simp
    from runRoots_defined [OF this, of exec "[]"] obtain b c where round:
      "runRoots exec (roots (todoTaskGraph s)) (s\<lparr>prevSize := length (todo s)\<rparr>) [] = Inr (b, c)"
      by blast
    let ?n = "b\<lparr>todoTaskGraph := updateTaskGraph (todoTaskGraph b) c\<rparr>"
    from run_invariant_round [OF good less.prems(1) pos round]
    have inv: "run_invariant ids ?n" and dec: "length (todo b) < length (todo s)"
      and p: "prevSize b = length (todo s)"
      by simp_all
    from dec p have "length (todo ?n) < length (todo s)"
      and "todo ?n = [] \<or> length (todo ?n) < prevSize ?n"
      by simp_all
    from less.hyps [OF this(1) inv this(2)] obtain s' where
      "runLoop exec ?n = Inr s'" and "run_invariant ids s'" and "todo s' = []"
      by blast
    moreover from runLoop_round [OF pos lt round] have "runLoop exec s = runLoop exec ?n" .
    ultimately show ?thesis by simp
  qed
qed

lemma depRel_graph_chain: "depRel graph_chain = {(''A'', ''B'')}"
  by (auto simp: depRel_def nodes_def Object_keys_def deps_of_def difference_def graph_chain_def
      split: if_splits)

lemma runRoot_status:
  assumes t: "map_of (tasks (todoTaskGraph s)) r = Some t"
  shows "\<exists>conts logged c'.
    runRoot exec s c r =
      Inr (s\<lparr>results := AList.update (task_id t)
                 (run_status (fst (exec (world s) (target t) (overrides t)))) (results s),
             todo := removeAll (task_id t) (todo s),
             continuedTasks := continuedTasks s @ conts,
             world := snd (exec (world s) (target t) (overrides t)),
             trace := trace s @ [StartTasks t, ScheduleTask t, RunExecutor t] @ logged
               @ [EndTasks (if Success = run_status (fst (exec (world s) (target t) (overrides t)))
                            then 0 else 1)
                    (run_status (fst (exec (world s) (target t) (overrides t)))) t]\<rparr>,
           c')
    \<and> (\<forall>e \<in> set logged. \<exists>err. e = LoggerError err)
    \<and> (drains_ok (fst (exec (world s) (target t) (overrides t))) \<longrightarrow> set conts \<subseteq> {Inr ()})"
proof -
  obtain started w' where e: "exec (world s) (target t) (overrides t) = (started, w')"
    by (cases "exec (world s) (target t) (overrides t)")
  show ?thesis
  proof (cases started)
    case (Inl err)
    with t e show ?thesis
      by (intro exI [of _ "[]"] exI [of _ "[LoggerError err]"] exI [of _ c])
         (simp add: runRoot_def run_status_def)
  next
    case (Inr iter)
    show ?thesis
    proof (cases iter)
      case Nil
      with t e Inr show ?thesis
        by (intro exI [of _ "[]"] exI [of _ "[LoggerError TypeError]"] exI [of _ c])
           (simp add: runRoot_def run_status_def)
    next
      case (Cons first rest)
      show ?thesis
      proof (cases first)
        case (Inl err)
        with t e \<open>started = Inr iter\<close> Cons show ?thesis
          by (intro exI [of _ "[]"] exI [of _ "[LoggerError err]"] exI [of _ c])
             (simp add: runRoot_def run_status_def)
      next
        case ev: (Inr event)
        show ?thesis
        proof (cases "ev_value event")
          case None
          with t e \<open>started = Inr iter\<close> Cons ev show ?thesis
            by (intro exI [of _ "[]"] exI [of _ "[LoggerError TypeError]"] exI [of _ c])
               (simp add: runRoot_def run_status_def)
        next
          case (Some success)
          with t e \<open>started = Inr iter\<close> Cons ev show ?thesis
            by (intro exI [of _ "if \<not> ev_done event then [exhaustAsyncIterator rest event] else []"]
                  exI [of _ "[]"] exI [of _ "c @ [task_id t]"])
               (simp add: runRoot_def run_status_def)
        qed
      qed
    qed
  qed
qed

lemma two_node_run:
  assumes ab: "a \<noteq> b"
    and g: "g = \<lparr>tasks = [(a, ta), (b, tb)], dependencies = [(a, []), (b, [a])], roots = [a]\<rparr>"
    and ida: "task_id ta = a" and idb: "task_id tb = b"
    and ea: "exec w (target ta) (overrides ta) = (Inr (Inr eventA # restA), w1)"
    and va: "ev_value eventA = Some False"
    and da: "exhaustAsyncIterator restA eventA = Inr ()"
    and eb: "exec w1 (target tb) (overrides tb) = (startedB, w2)"
    and db: "drains_ok startedB"
  shows "\<exists>s'. runLoop exec (initial_state [ta, tb] g w) = Inr s'
    \<and> dispatched (trace s') = [a, b]
    \<and> results s' = [(a, Failure), (b, run_status startedB)]
    \<and> set (continuedTasks s') \<subseteq> {Inr ()}"
proof -
  let ?s0 = "initial_state [ta, tb] g w"
  from g have tg: "tasks g = [(a, ta), (b, tb)]" and rg: "roots g = [a]" by simp_all
  have todo0: "todo ?s0 = [a, b]" and p0: "prevSize ?s0 = 3" and w0: "world ?s0 = w"
    and g0: "todoTaskGraph ?s0 = g" and tr0: "trace ?s0 = []" and c0: "continuedTasks ?s0 = []"
    and r0: "results ?s0 = [(a, Skipped), (b, Skipped)]"
    using ab by (simp_all add: initial_state_def ida idb zipObject_def)
  \<comment> \<open>round 1\<close>
  let ?a0 = "?s0\<lparr>prevSize := length (todo ?s0)\<rparr>"
  have ta: "map_of (tasks (todoTaskGraph ?a0)) a = Some ta" by (simp add: g0 tg)
  have ea': "fst (exec (world ?a0) (target ta) (overrides ta)) = Inr (Inr eventA # restA)"
    by (simp add: w0 ea)
  have na: "iter_next (Inr eventA # restA) = (Inr eventA, restA)" by simp
  note one = runRoot_event [where exec = exec and c = "[]", OF ta ea' na va]
  define s1 where "s1 = ?a0\<lparr>results := AList.update (task_id ta) (if False then Success else Failure) (results ?a0),
           todo := removeAll (task_id ta) (todo ?a0),
           continuedTasks := continuedTasks ?a0
             @ (if \<not> ev_done eventA then [exhaustAsyncIterator restA eventA] else []),
           world := snd (exec (world ?a0) (target ta) (overrides ta)),
           trace := trace ?a0 @ [StartTasks ta, ScheduleTask ta, RunExecutor ta,
                      EndTasks (if False then 0 else 1) (if False then Success else Failure) ta]\<rparr>"
  from one have round1: "runRoots exec (roots (todoTaskGraph ?s0)) ?a0 [] = Inr (s1, [a])"
    by (simp add: s1_def g0 rg ida)
  have todo1: "todo s1 = [b]" and p1: "prevSize s1 = 2" and w1: "world s1 = w1"
    and g1: "todoTaskGraph s1 = g" and tr1: "dispatched (trace s1) = [a]"
    and r1: "results s1 = [(a, Failure), (b, Skipped)]"
    using ab by (simp_all add: s1_def todo0 w0 ea g0 tr0 c0 r0 ida)
  have c1: "set (continuedTasks s1) \<subseteq> {Inr ()}"
    by (auto simp: s1_def c0 da simp del: exhaustAsyncIterator.simps)
  let ?n1 = "s1\<lparr>todoTaskGraph := updateTaskGraph (todoTaskGraph s1) [a]\<rparr>"
  have "runLoop exec ?s0 = runLoop exec ?n1"
    by (rule runLoop_round [OF _ _ round1]) (simp_all add: todo0 p0)
  \<comment> \<open>round 2\<close>
  moreover
  have gr: "updateTaskGraph g [a] = \<lparr>tasks = [(b, tb)], dependencies = [(b, [])], roots = [b]\<rparr>"
    using ab by (simp add: g updateTaskGraph_def omit_names_def Object_keys_def zipObject_def
        difference_def)
  let ?a1 = "?n1\<lparr>prevSize := length (todo ?n1)\<rparr>"
  have tb: "map_of (tasks (todoTaskGraph ?a1)) b = Some tb" by (simp add: g1 gr)
  have eb': "exec (world ?a1) (target tb) (overrides tb) = (startedB, w2)"
    by (simp add: w1 eb)
  from runRoot_status [where exec = exec and c = "[]", OF tb] db obtain conts logged c' where
    two: "runRoot exec ?a1 [] b =
      Inr (?a1\<lparr>results := AList.update (task_id tb) (run_status startedB) (results ?a1),
             todo := removeAll (task_id tb) (todo ?a1),
             continuedTasks := continuedTasks ?a1 @ conts,
             world := w2,
             trace := trace ?a1 @ [StartTasks tb, ScheduleTask tb, RunExecutor tb] @ logged
               @ [EndTasks (if Success = run_status startedB then 0 else 1)
                    (run_status startedB) tb]\<rparr>,
           c')"
    and lg: "\<forall>e \<in> set logged. \<exists>err. e = LoggerError err"
    and cs: "set conts \<subseteq> {Inr ()}"
    unfolding eb' by auto
  define s2 where "s2 = ?a1\<lparr>results := AList.update (task_id tb) (run_status startedB) (results ?a1),
             todo := removeAll (task_id tb) (todo ?a1),
             continuedTasks := continuedTasks ?a1 @ conts,
             world := w2,
             trace := trace ?a1 @ [StartTasks tb, ScheduleTask tb, RunExecutor tb] @ logged
               @ [EndTasks (if Success = run_status startedB then 0 else 1)
                    (run_status startedB) tb]\<rparr>"
  from two have round2: "runRoots exec (roots (todoTaskGraph ?n1)) ?a1 [] = Inr (s2, c')"
    by (simp add: s2_def g1 gr)
  have todo2: "todo s2 = []" and tr2: "dispatched (trace s2) = [a, b]"
    and c2: "set (continuedTasks s2) \<subseteq> {Inr ()}"
    and r2: "results s2 = [(a, Failure), (b, run_status startedB)]"
    using ab c1 cs tr1 logged_events(1) [OF lg]
    by (simp_all add: s2_def todo1 r1 idb dispatched_append)
  let ?n2 = "s2\<lparr>todoTaskGraph := updateTaskGraph (todoTaskGraph s2) c'\<rparr>"
  have "runLoop exec ?n1 = runLoop exec ?n2"
    by (rule runLoop_round [OF _ _ round2]) (simp_all add: todo1 p1)
  moreover have "runLoop exec ?n2 = Inr ?n2"
    by (rule runLoop_stop) (simp add: todo2)
  ultimately have "runLoop exec ?s0 = Inr ?n2" by simp
  with tr2 c2 r2 show ?thesis by (intro exI [of _ ?n2]) simp
qed

subsection \<open>Dispatching at most once\<close>

text \<open>
  With an adapter that keeps its contract, every dispatched task is completed and leaves
  the graph, so no task is dispatched twice.
\<close>

lemma distinct_roots_updateTaskGraph:
  "distinct (map fst (tasks g)) \<Longrightarrow> distinct (roots (updateTaskGraph g c))"
  unfolding roots_updateTaskGraph tasks_updateTaskGraph omit_names_def Object_keys_def
  by (intro distinct_filter) (simp add: distinct_map_filter)

lemma distinct_keys_updateTaskGraph:
  "distinct (map fst (tasks g)) \<Longrightarrow> distinct (map fst (tasks (updateTaskGraph g c)))"
  by (simp add: tasks_updateTaskGraph omit_names_def distinct_map_filter)

lemma dispatched_once_when_yielding:
  fixes exec :: "('t, 'o, 'w) executor"
  assumes good: "\<forall>w tg ov. yields_first (fst (exec w tg ov))"
    and "keyed_by_id g" and "distinct (map fst (tasks g))"
    and "distinct (roots g)" and "set (roots g) \<subseteq> nodes g"
    and loop: "runLoop exec (initial_state ts g w) = Inr s'"
  shows "distinct (dispatched (trace s'))"
proof -
  define I where "I = (\<lambda>a :: ('t, 'o, 'w) run_state.
    keyed_by_id (todoTaskGraph a) \<and> distinct (map fst (tasks (todoTaskGraph a)))
    \<and> distinct (roots (todoTaskGraph a)) \<and> set (roots (todoTaskGraph a)) \<subseteq> nodes (todoTaskGraph a)
    \<and> distinct (dispatched (trace a))
    \<and> set (dispatched (trace a)) \<inter> nodes (todoTaskGraph a) = {})"
  have init: "I (initial_state ts g w)"
    unfolding I_def using assms(2-5) by (simp add: initial_state_def)
  have step: "I (b\<lparr>todoTaskGraph := updateTaskGraph (todoTaskGraph b) c\<rparr>)"
    if a: "I a"
      and round: "runRoots exec (roots (todoTaskGraph a)) (a\<lparr>prevSize := length (todo a)\<rparr>) [] = Inr (b, c)"
    for a b c
  proof -
    let ?g = "todoTaskGraph a" and ?rs = "roots (todoTaskGraph a)"
    from a have k: "keyed_by_id ?g" and dk: "distinct (map fst (tasks ?g))"
      and dr: "distinct ?rs" and rn: "set ?rs \<subseteq> nodes ?g"
      and dd: "distinct (dispatched (trace a))"
      and dj: "set (dispatched (trace a)) \<inter> nodes ?g = {}"
      unfolding I_def by simp_all
    from k have ka: "keyed_by_id (todoTaskGraph (a\<lparr>prevSize := length (todo a)\<rparr>))" by simp
    from runRoots_order [OF ka round]
    have tr: "dispatched (trace b) = dispatched (trace a) @ ?rs" by simp
    from runRoots_graph [OF round] have gb: "todoTaskGraph b = ?g" by simp
    from runRoots_yields [OF good ka round] have c: "c = ?rs" by simp
    have 1: "distinct (dispatched (trace b))"
      unfolding tr using dd dr dj rn by auto
    have 2: "set (dispatched (trace b)) \<inter> nodes (updateTaskGraph ?g c) = {}"
      unfolding tr c nodes_updateTaskGraph using dj by auto
    from k dk 1 2 show ?thesis
      unfolding I_def
      by (simp add: gb keyed_by_id_updateTaskGraph distinct_keys_updateTaskGraph
          distinct_roots_updateTaskGraph roots_nodes_updateTaskGraph)
  qed
  have "I s'"
    by (rule runLoop_invariant [where I = I, OF loop init]) (rule step)
  then show ?thesis unfolding I_def by simp
qed

subsection \<open>The completed ids of a round\<close>

text \<open>
  In a graph that stores each task under its own id, the ids that a round completes are
  keys of the tasks of the graph: \<^verbatim>\<open>_.omit\<close> reads each as the name of one property, and
  the reducer on paths gives what the reducer on names gives.
\<close>

lemma round_completes_names:
  assumes "runRoots exec rs s [] = Inr (s', completed)" and "keyed_by_id (todoTaskGraph s)"
  shows "\<forall>x \<in> set completed. isKey (tasks (todoTaskGraph s)) x"
    and "updateTaskGraph_paths u (todoTaskGraph s) completed
           = updateTaskGraph (todoTaskGraph s) completed"
proof -
  from runRoots_facts [OF assms]
  have "set rs \<subseteq> nodes (todoTaskGraph s)" and "set completed \<subseteq> set [] \<union> set rs"
    by simp_all
  then show k: "\<forall>x \<in> set completed. isKey (tasks (todoTaskGraph s)) x"
    by (auto simp: isKey_def nodes_def)
  show "updateTaskGraph_paths u (todoTaskGraph s) completed
           = updateTaskGraph (todoTaskGraph s) completed"
    by (rule updateTaskGraph_paths_names [OF k])
qed

section \<open>The claims of the specification\<close>

text \<open>
  C1 (no task is passed to \<^verbatim>\<open>runExecutor\<close> in more than one round, also not a task whose
  adapter call raised) does not hold of the code. On the chain in which \<open>B\<close> depends on
  \<open>A\<close>, with an adapter that rejects every call: round 1 dispatches \<open>A\<close>, the rejection is
  caught before \<^verbatim>\<open>completed.push\<close>, so \<open>A\<close> is removed from \<^verbatim>\<open>todo\<close> but stays a root of the
  reduced graph; \<^verbatim>\<open>todo\<close> went from two ids to one, so round 2 starts and dispatches \<open>A\<close>
  again. On the path where the adapter yields, a dispatched task leaves the graph and
  is not dispatched again (lemma \<open>dispatched_once_when_yielding\<close>).
\<close>

theorem raised_task_dispatched_again:
  "(case runLoop exec_raise (initial_state [mk ''A'' ''fail'', mk ''B'' ''build''] graph_chain 0) of
      Inl err \<Rightarrow> False
    | Inr s \<Rightarrow> dispatched (trace s) = [''A'', ''A''] \<and> world s = 2
         \<and> results s = [(''A'', Failure), (''B'', Skipped)])"
  by code_simp

text \<open>
  C2, as stated, fails: the graph of the independent tasks \<open>A\<close> and \<open>B\<close> is acyclic and
  fully declared, keeps the roots invariant and contains the only submitted task \<open>A\<close>,
  but the round dispatches every root of the graph, so the mapping returned has an
  entry for \<open>B\<close> as well.
\<close>

theorem results_keys_counterexample:
  "acyclic (depRel graph_flat) \<and> fully_declared graph_flat \<and> roots_exact graph_flat
   \<and> keyed_by_id graph_flat
   \<and> task_id ` set [mk ''A'' ''build''] \<subseteq> nodes graph_flat
   \<and> ''B'' \<notin> task_id ` set [mk ''A'' ''build'']
   \<and> runAllTasks exec_yield [mk ''A'' ''build''] graph_flat 0
       = Inr [(''A'', Success), (''B'', Success)]"
proof -
  have d: "deps_of graph_flat k = []" for k
    by (simp add: deps_of_def difference_def graph_flat_def)
  then have "depRel graph_flat = {}" by (simp add: depRel_def)
  then have 1: "acyclic (depRel graph_flat)" by (simp add: acyclic_def)
  have n: "nodes graph_flat = {''A'', ''B''}"
    by (simp add: nodes_def Object_keys_def graph_flat_def)
  have 2: "fully_declared graph_flat" by (simp add: fully_declared_def d)
  have 3: "roots_exact graph_flat"
    unfolding roots_exact_def n d by (auto simp: graph_flat_def)
  have 4: "keyed_by_id graph_flat" by (simp add: keyed_by_id_def graph_flat_def mk_def)
  have 5: "task_id ` set [mk ''A'' ''build''] \<subseteq> nodes graph_flat"
    unfolding n by (simp add: mk_def)
  have 6: "runAllTasks exec_yield [mk ''A'' ''build''] graph_flat 0
       = Inr [(''A'', Success), (''B'', Success)]"
    by code_simp
  have 7: "''B'' \<notin> task_id ` set [mk ''A'' ''build'']" by (simp add: mk_def)
  from 1 2 3 4 5 6 7 show ?thesis by (simp only: simp_thms)
qed

text \<open>
  C2, amended. For every acyclic, fully declared task graph that stores each task
  under its own id, whose roots are exactly its tasks without dependencies and whose
  node set equals the set of submitted task ids: if every call of the adapter resolves
  to a stream whose first event carries a success flag and whose remaining events drain
  without a rejection, the run returns a result mapping whose key set is exactly the set
  of submitted ids, with every value \<^verbatim>\<open>'success'\<close> or \<^verbatim>\<open>'failure'\<close>.
\<close>

theorem all_tasks_resolved:
  assumes "keyed_by_id g" and "roots_exact g" and "fully_declared g" and "acyclic (depRel g)"
    and "nodes g = task_id ` set ts"
    and "\<forall>w tg ov. yields_first (fst (exec w tg ov))"
  shows "\<exists>res. runAllTasks exec ts g w = Inr res
    \<and> fst ` set res = task_id ` set ts
    \<and> (\<forall>i \<in> task_id ` set ts. map_of res i \<in> {Some Success, Some Failure})"
proof -
  let ?s = "initial_state ts g w" and ?ids = "task_id ` set ts"
  have g: "todoTaskGraph ?s = g" and t: "set (todo ?s) = ?ids"
    and c: "continuedTasks ?s = []" and p: "length (todo ?s) < prevSize ?s"
    by (simp_all add: initial_state_def)
  have "run_invariant ?ids ?s"
    unfolding run_invariant_def g t c
    using assms(1-5) by (simp add: keys_results_initial_state)
  from runLoop_completes [OF assms(6) this] p obtain s' where
    loop: "runLoop exec ?s = Inr s'" and inv: "run_invariant ?ids s'" and e: "todo s' = []"
    by blast
  from inv e have n: "nodes (todoTaskGraph s') = {}"
    and k: "fst ` set (results s') = ?ids"
    and v: "\<forall>i \<in> ?ids - nodes (todoTaskGraph s'). map_of (results s') i \<in> {Some Success, Some Failure}"
    and d: "set (continuedTasks s') \<subseteq> {Inr ()}"
    unfolding run_invariant_def by auto
  from Promise_all_fulfilled [OF d] obtain u where "Promise_all (continuedTasks s') = Inr u"
    by blast
  with loop have "runAllTasks exec ts g w = Inr (results s')"
    by (simp add: runAllTasks_def)
  with k v n show ?thesis by simp
qed

theorem all_tasks_resolved_witness:
  "keyed_by_id graph_chain \<and> roots_exact graph_chain \<and> fully_declared graph_chain
   \<and> acyclic (depRel graph_chain)
   \<and> nodes graph_chain = task_id ` set [mk ''A'' ''fail'', mk ''B'' ''build'']
   \<and> (\<forall>w tg ov. yields_first (fst (exec_yield w tg ov)))
   \<and> (\<exists>res. runAllTasks exec_yield [mk ''A'' ''fail'', mk ''B'' ''build''] graph_chain 0 = Inr res
          \<and> fst ` set res = {''A'', ''B''}
          \<and> map_of res ''A'' \<in> {Some Success, Some Failure}
          \<and> map_of res ''B'' \<in> {Some Success, Some Failure})"
proof -
  have n: "nodes graph_chain = {''A'', ''B''}"
    by (simp add: nodes_def Object_keys_def graph_chain_def)
  have da: "deps_of graph_chain ''A'' = []" and db: "deps_of graph_chain ''B'' = [''A'']"
    by (simp_all add: deps_of_def difference_def graph_chain_def)
  have 1: "keyed_by_id graph_chain" by (simp add: keyed_by_id_def graph_chain_def mk_def)
  have 2: "roots_exact graph_chain"
    unfolding roots_exact_def n using da db by (auto simp: graph_chain_def)
  have 3: "fully_declared graph_chain"
    unfolding fully_declared_def n using da db by simp
  have "acyclic ({} :: (string \<times> string) set)" by (simp add: acyclic_def)
  then have 4: "acyclic (depRel graph_chain)"
    unfolding depRel_graph_chain acyclic_insert by simp
  have 5: "nodes graph_chain = task_id ` set [mk ''A'' ''fail'', mk ''B'' ''build'']"
    unfolding n by (simp add: mk_def)
  have 6: "\<forall>w tg ov. yields_first (fst (exec_yield w tg ov))"
    by (simp add: exec_yield_def)
  from all_tasks_resolved [OF 1 2 3 4 5 6, of 0]
  have 7: "\<exists>res. runAllTasks exec_yield [mk ''A'' ''fail'', mk ''B'' ''build''] graph_chain 0 = Inr res
          \<and> fst ` set res = {''A'', ''B''}
          \<and> map_of res ''A'' \<in> {Some Success, Some Failure}
          \<and> map_of res ''B'' \<in> {Some Success, Some Failure}"
    by (simp add: mk_def)
  from 1 2 3 4 5 6 7 show ?thesis by (simp only: simp_thms)
qed

text \<open>
  C3. For a graph that stores each task under its own id and keeps the roots invariant
  (every root is a task with an empty dependency list), the loop ends without a throw,
  and in its trace every call of \<^verbatim>\<open>runExecutor\<close> for a task comes after the \<^verbatim>\<open>endTasks\<close>
  call, with the status written to \<^verbatim>\<open>results\<close> in the same step, of every dependency
  the graph declares for that task; each task so ended has \<^verbatim>\<open>'success'\<close> or \<^verbatim>\<open>'failure'\<close>
  in the results. Within a round, the executor calls are made in the order of
  \<^verbatim>\<open>graph.roots\<close>.
\<close>

theorem dependencies_first:
  assumes "keyed_by_id g" and "roots_invariant g"
  shows "(\<exists>s'. runLoop exec (initial_state ts g w) = Inr s'
            \<and> deps_first (deps_of g) {} (trace s')
            \<and> (\<forall>i \<in> ended (trace s'). map_of (results s') i \<in> {Some Success, Some Failure}))
    \<and> (\<forall>s s' c. keyed_by_id (todoTaskGraph s)
            \<and> runRoots exec (roots (todoTaskGraph s)) s [] = Inr (s', c)
          \<longrightarrow> dispatched (trace s') = dispatched (trace s) @ roots (todoTaskGraph s))"
proof (intro conjI allI impI)
  let ?s = "initial_state ts g w"
  have g: "todoTaskGraph ?s = g" and t: "trace ?s = []" by (simp_all add: initial_state_def)
  from assms(2) have "set (roots (todoTaskGraph ?s)) \<subseteq> nodes (todoTaskGraph ?s)"
    unfolding g by (auto simp: roots_invariant_def)
  from runLoop_total [OF this] obtain s' where loop: "runLoop exec ?s = Inr s'" by blast
  have "deps_first (deps_of g) {} (trace s')
    \<and> (\<forall>i \<in> ended (trace s'). map_of (results s') i \<in> {Some Success, Some Failure})"
    by (rule deps_first_invariant [OF loop]) (simp_all add: g t assms)
  with loop show "\<exists>s'. runLoop exec ?s = Inr s'
      \<and> deps_first (deps_of g) {} (trace s')
      \<and> (\<forall>i \<in> ended (trace s'). map_of (results s') i \<in> {Some Success, Some Failure})"
    by blast
next
  fix s s' :: "('a, 'b, 'c) run_state" and c
  assume "keyed_by_id (todoTaskGraph s)
    \<and> runRoots exec (roots (todoTaskGraph s)) s [] = Inr (s', c)"
  then have "keyed_by_id (todoTaskGraph s)"
    and "runRoots exec (roots (todoTaskGraph s)) s [] = Inr (s', c)"
    by simp_all
  then show "dispatched (trace s') = dispatched (trace s) @ roots (todoTaskGraph s)"
    by (rule runRoots_order)
qed

theorem dependencies_first_witness:
  "keyed_by_id graph_chain \<and> roots_invariant graph_chain
   \<and> (\<exists>s'. runLoop exec_yield (initial_state [mk ''A'' ''fail'', mk ''B'' ''build''] graph_chain 0) = Inr s'
          \<and> dispatched (trace s') = [''A'', ''B'']
          \<and> deps_first (deps_of graph_chain) {} (trace s')
          \<and> (\<forall>i \<in> ended (trace s'). map_of (results s') i \<in> {Some Success, Some Failure}))
   \<and> (\<exists>s'. runRoots exec_yield (roots graph_flat)
               (initial_state [mk ''A'' ''build'', mk ''B'' ''build''] graph_flat 0) [] = Inr (s', [''A'', ''B''])
          \<and> dispatched (trace s') = [''A'', ''B''])"
proof -
  let ?s = "initial_state [mk ''A'' ''fail'', mk ''B'' ''build''] graph_chain (0::nat)"
  let ?f = "initial_state [mk ''A'' ''build'', mk ''B'' ''build''] graph_flat (0::nat)"
  have k: "keyed_by_id graph_chain" by (simp add: keyed_by_id_def graph_chain_def mk_def)
  have r: "roots_invariant graph_chain"
    by (simp add: roots_invariant_def graph_chain_def nodes_def Object_keys_def deps_of_def
        difference_def)
  note th = dependencies_first [OF k r, of exec_yield]
  from th [THEN conjunct1, of "[mk ''A'' ''fail'', mk ''B'' ''build'']" 0] obtain s' where
    loop: "runLoop exec_yield ?s = Inr s'"
    and d: "deps_first (deps_of graph_chain) {} (trace s')"
    and v: "\<forall>i \<in> ended (trace s'). map_of (results s') i \<in> {Some Success, Some Failure}"
    by blast
  have "(case runLoop exec_yield ?s of Inl err \<Rightarrow> False
         | Inr a \<Rightarrow> dispatched (trace a) = [''A'', ''B''])"
    by code_simp
  with loop have "dispatched (trace s') = [''A'', ''B'']" by simp
  with loop d v have 1: "\<exists>s'. runLoop exec_yield ?s = Inr s'
          \<and> dispatched (trace s') = [''A'', ''B'']
          \<and> deps_first (deps_of graph_chain) {} (trace s')
          \<and> (\<forall>i \<in> ended (trace s'). map_of (results s') i \<in> {Some Success, Some Failure})"
    by blast
  have kf: "keyed_by_id (todoTaskGraph ?f)"
    by (simp add: keyed_by_id_def graph_flat_def mk_def initial_state_def)
  have gf: "todoTaskGraph ?f = graph_flat" and tf: "trace ?f = []"
    by (simp_all add: initial_state_def)
  have "(case runRoots exec_yield (roots graph_flat) ?f [] of Inl err \<Rightarrow> False
         | Inr (a, c) \<Rightarrow> c = [''A'', ''B''])"
    by code_simp
  then obtain b where round: "runRoots exec_yield (roots graph_flat) ?f [] = Inr (b, [''A'', ''B''])"
    by (auto split: sum.splits)
  from round have "runRoots exec_yield (roots (todoTaskGraph ?f)) ?f [] = Inr (b, [''A'', ''B''])"
    by (simp only: gf)
  with kf have "keyed_by_id (todoTaskGraph ?f)
    \<and> runRoots exec_yield (roots (todoTaskGraph ?f)) ?f [] = Inr (b, [''A'', ''B''])"
    by (simp only: simp_thms)
  from th [THEN conjunct2, rule_format, OF this]
  have "dispatched (trace b) = dispatched (trace ?f) @ roots (todoTaskGraph ?f)" .
  then have "dispatched (trace b) = [''A'', ''B'']"
    unfolding gf tf by (simp add: graph_flat_def)
  with round have 2: "\<exists>s'. runRoots exec_yield (roots graph_flat) ?f [] = Inr (s', [''A'', ''B''])
          \<and> dispatched (trace s') = [''A'', ''B'']"
    by blast
  from k r 1 2 show ?thesis by (simp only: simp_thms)
qed

text \<open>
  C4, as stated, fails: \<^verbatim>\<open>_.omit\<close> reads a completed id that is no key of \<^verbatim>\<open>old.tasks\<close>
  and contains a dot (or a bracket pair) as a property path. The id \<^verbatim>\<open>A.target\<close> is no
  task of the chain of \<open>A\<close> and \<open>B\<close>, but reducing by it deletes the property \<^verbatim>\<open>target\<close> of
  the task \<open>A\<close>: the tasks of the result are not the tasks of the graph without the ids
  in the list.
\<close>

theorem updateTaskGraph_path_counterexample:
  "''A.target'' \<notin> nodes graph_targets
   \<and> castPath (tasks graph_targets) ''A.target'' = [''A'', ''target'']
   \<and> map_of (tasks graph_targets) ''A'' = Some \<lparr>task_id = ''A'', target = Some ''build'', overrides = ()\<rparr>
   \<and> map_of (tasks (updateTaskGraph_paths unset_target graph_targets [''A.target''])) ''A''
       = Some \<lparr>task_id = ''A'', target = None, overrides = ()\<rparr>"
  by code_simp

text \<open>
  C4, amended. For every graph \<open>g\<close> and every completed list \<open>c\<close> of ids that \<^verbatim>\<open>_.omit\<close>
  reads as property names (each is a key of \<^verbatim>\<open>g.tasks\<close>, or consists of word characters,
  or has no dot and no bracket pair): the reduced graph has the tasks of \<open>g\<close> without
  exactly the ids in \<open>c\<close> (as a mapping, and in the same key order); its dependency
  object has one entry per remaining task, the list that \<open>g\<close> declares for that task
  without the ids in \<open>c\<close> (the empty list when \<open>g\<close> declares none); and its roots are the
  remaining ids whose list in the reduced graph is empty, in key order. On a store: from
  every store in which an address holds \<open>g\<close>, the call returns the address of a new graph
  object whose three fields are new objects; every object that was in the store is
  unchanged, so the address given still holds \<open>g\<close>; and the graph at the new address is
  the same value whatever else the store holds and wherever \<open>g\<close> is stored.
\<close>

theorem updateTaskGraph_names_spec:
  assumes "\<forall>x \<in> set c. isKey (tasks g) x"
  shows "map_of (tasks (updateTaskGraph_paths u g c)) = map_of (tasks g) |` (- set c)
   \<and> Object_keys (tasks (updateTaskGraph_paths u g c)) = filter (\<lambda>k. k \<notin> set c) (Object_keys (tasks g))
   \<and> nodes (updateTaskGraph_paths u g c) = nodes g - set c
   \<and> fst ` set (dependencies (updateTaskGraph_paths u g c)) = nodes (updateTaskGraph_paths u g c)
   \<and> (\<forall>k \<in> nodes (updateTaskGraph_paths u g c).
         map_of (dependencies (updateTaskGraph_paths u g c)) k
           = Some (filter (\<lambda>d. d \<notin> set c)
                     (case map_of (dependencies g) k of None \<Rightarrow> [] | Some ds \<Rightarrow> ds)))
   \<and> roots (updateTaskGraph_paths u g c)
       = filter (\<lambda>k. map_of (dependencies (updateTaskGraph_paths u g c)) k = Some [])
           (Object_keys (tasks (updateTaskGraph_paths u g c)))
   \<and> (\<forall>h old. graph_at h old = Some g \<longrightarrow>
         (\<exists>h' new d r t. updateTaskGraph_heap u h old c = Some (h', new)
            \<and> take (length h) h' = h
            \<and> graph_at h' old = Some g
            \<and> graph_at h' new = Some (updateTaskGraph_paths u g c)
            \<and> deref h' new = Some (GraphObj d r t)
            \<and> length h \<le> d \<and> length h \<le> r \<and> length h \<le> t \<and> length h \<le> new))
   \<and> (\<forall>h1 old1 h2 old2. graph_at h1 old1 = Some g \<and> graph_at h2 old2 = Some g \<longrightarrow>
         (\<exists>h1' new1 h2' new2 g'.
            updateTaskGraph_heap u h1 old1 c = Some (h1', new1)
            \<and> updateTaskGraph_heap u h2 old2 c = Some (h2', new2)
            \<and> graph_at h1' new1 = Some g' \<and> graph_at h2' new2 = Some g'))"
proof -
  let ?U = "updateTaskGraph_paths u g c"
  have U: "?U = updateTaskGraph g c"
    by (rule updateTaskGraph_paths_names [OF assms])
  have "omit_names (tasks g) c = AList.restrict (- set c) (tasks g)"
    by (simp add: omit_names_def AList.restrict_eq)
  then have 1: "map_of (tasks ?U) = map_of (tasks g) |` (- set c)"
    by (simp add: U tasks_updateTaskGraph restr_conv')
  have 2: "Object_keys (tasks ?U) = filter (\<lambda>k. k \<notin> set c) (Object_keys (tasks g))"
    by (simp add: U tasks_updateTaskGraph omit_names_def Object_keys_def filter_map comp_def
        case_prod_unfold)
  have 3: "nodes ?U = nodes g - set c"
    by (simp add: U nodes_updateTaskGraph)
  have 4: "fst ` set (dependencies ?U) = nodes ?U"
    by (simp add: U dependencies_updateTaskGraph zipObject_keys nodes_def tasks_updateTaskGraph)
  have 5: "map_of (dependencies ?U) k
         = Some (filter (\<lambda>d. d \<notin> set c) (case map_of (dependencies g) k of None \<Rightarrow> [] | Some ds \<Rightarrow> ds))"
    if "k \<in> nodes ?U" for k
    using that unfolding U
    by (auto simp: nodes_updateTaskGraph lookup_updateTaskGraph difference_def
        split: option.splits)
  have "(case map_of (dependencies ?U) k of Some ds \<Rightarrow> 0 = length ds | None \<Rightarrow> False)
      = (map_of (dependencies ?U) k = Some [])" for k
    by (auto split: option.splits)
  then have 6: "roots ?U = filter (\<lambda>k. map_of (dependencies ?U) k = Some []) (Object_keys (tasks ?U))"
    unfolding roots_updateTaskGraph_paths [of u g c] by simp
  have 7: "\<exists>h' new d r t. updateTaskGraph_heap u h old c = Some (h', new)
            \<and> take (length h) h' = h
            \<and> graph_at h' old = Some g
            \<and> graph_at h' new = Some ?U
            \<and> deref h' new = Some (GraphObj d r t)
            \<and> length h \<le> d \<and> length h \<le> r \<and> length h \<le> t \<and> length h \<le> new"
    if "graph_at h old = Some g" for h old
    by (rule updateTaskGraph_heap_run [OF that])
  have 8: "\<exists>h1' new1 h2' new2 g'.
            updateTaskGraph_heap u h1 old1 c = Some (h1', new1)
            \<and> updateTaskGraph_heap u h2 old2 c = Some (h2', new2)
            \<and> graph_at h1' new1 = Some g' \<and> graph_at h2' new2 = Some g'"
    if "graph_at h1 old1 = Some g \<and> graph_at h2 old2 = Some g" for h1 old1 h2 old2
  proof -
    from that have a: "graph_at h1 old1 = Some g" and b: "graph_at h2 old2 = Some g" by simp_all
    from 7 [OF a] obtain h1' new1 where
      "updateTaskGraph_heap u h1 old1 c = Some (h1', new1)" "graph_at h1' new1 = Some ?U"
      by (elim exE conjE)
    moreover from 7 [OF b] obtain h2' new2 where
      "updateTaskGraph_heap u h2 old2 c = Some (h2', new2)" "graph_at h2' new2 = Some ?U"
      by (elim exE conjE)
    ultimately show ?thesis by (intro exI conjI)
  qed
  show ?thesis
    apply (intro conjI ballI allI impI)
    apply (rule 1)
    apply (rule 2)
    apply (rule 3)
    apply (rule 4)
    apply (erule 5)
    apply (rule 6)
    apply (erule 7)
    apply (erule 8)
    done
qed

theorem updateTaskGraph_names_spec_witness:
  "isKey (tasks graph_three) ''A''
   \<and> ''B'' \<in> nodes (updateTaskGraph_paths unset_target graph_three [''A''])
   \<and> map_of (tasks (updateTaskGraph_paths unset_target graph_three [''A''])) ''A'' = None
   \<and> map_of (tasks (updateTaskGraph_paths unset_target graph_three [''A''])) ''B'' = Some (mk_opt ''B'' ''build'')
   \<and> map_of (dependencies (updateTaskGraph_paths unset_target graph_three [''A''])) ''B'' = Some [''X'', ''C'']
   \<and> roots (updateTaskGraph_paths unset_target graph_three [''A'']) = [''C'']
   \<and> graph_at heap_three 3 = Some graph_three
   \<and> (\<exists>h' new. updateTaskGraph_heap unset_target heap_three 3 [''A''] = Some (h', new)
          \<and> take 4 h' = heap_three
          \<and> graph_at h' 3 = Some graph_three
          \<and> graph_at h' new = Some (updateTaskGraph_paths unset_target graph_three [''A'']))"
proof -
  let ?U = "updateTaskGraph_paths unset_target graph_three [''A'']"
  have k: "isKey (tasks graph_three) ''A''"
    by (simp add: isKey_def reIsPlainProp_def word_char_def)
  then have "\<forall>x \<in> set [''A'']. isKey (tasks graph_three) x" by simp
  note spec = updateTaskGraph_names_spec [OF this, of unset_target]
  have n0: "nodes graph_three = {''A'', ''B'', ''C''}"
    by (simp add: nodes_def graph_three_def Object_keys_def)
  from spec [THEN conjunct2, THEN conjunct2, THEN conjunct1]
  have n: "nodes ?U = {''B'', ''C''}"
    unfolding n0 by auto
  then have b: "''B'' \<in> nodes ?U" and c: "''C'' \<in> nodes ?U" by simp_all
  from spec [THEN conjunct1]
  have t: "map_of (tasks ?U) ''A'' = None" "map_of (tasks ?U) ''B'' = Some (mk_opt ''B'' ''build'')"
    by (simp_all add: graph_three_def restrict_map_def)
  from spec [THEN conjunct2, THEN conjunct1]
  have ks: "Object_keys (tasks ?U) = [''B'', ''C'']"
    by (simp add: graph_three_def Object_keys_def)
  note deps = spec [THEN conjunct2, THEN conjunct2, THEN conjunct2, THEN conjunct2, THEN conjunct1,
      rule_format]
  from deps [OF b] have db: "map_of (dependencies ?U) ''B'' = Some [''X'', ''C'']"
    by (simp add: graph_three_def)
  from deps [OF c] have dc: "map_of (dependencies ?U) ''C'' = Some []"
    by (simp add: graph_three_def)
  from spec [THEN conjunct2, THEN conjunct2, THEN conjunct2, THEN conjunct2, THEN conjunct2,
      THEN conjunct1]
  have r: "roots ?U = [''C'']"
    unfolding ks by (simp add: db dc)
  have g: "graph_at heap_three 3 = Some graph_three"
    by (simp add: graph_at_def deref_def heap_three_def)
  have l: "length heap_three = 4" by (simp add: heap_three_def)
  from spec [THEN conjunct2, THEN conjunct2, THEN conjunct2, THEN conjunct2, THEN conjunct2,
      THEN conjunct2, THEN conjunct1, rule_format, OF g]
  have h: "\<exists>h' new. updateTaskGraph_heap unset_target heap_three 3 [''A''] = Some (h', new)
          \<and> take 4 h' = heap_three
          \<and> graph_at h' 3 = Some graph_three
          \<and> graph_at h' new = Some ?U"
    unfolding l by (elim exE conjE) (intro exI conjI, assumption+)
  from k b t db r g h show ?thesis by (simp only: simp_thms)
qed

text \<open>
  C5. For a dispatched task (a root id that is a task of the graph): if the first
  \<^verbatim>\<open>next()\<close> of the adapter resolves to an event with a success flag, the status written
  to \<^verbatim>\<open>results\<close> is \<^verbatim>\<open>'success'\<close> when the flag is true and \<^verbatim>\<open>'failure'\<close> when it is
  false; if \<^verbatim>\<open>runExecutor\<close> or that \<^verbatim>\<open>next()\<close> rejects, the status written is
  \<^verbatim>\<open>'failure'\<close>, the error is passed to \<^verbatim>\<open>logger.error\<close>, and the \<^verbatim>\<open>for\<close> loop goes on
  with the remaining roots. Whatever the adapter does, the \<^verbatim>\<open>while\<close> loop ends without
  a throw, from every state whose roots are tasks of its graph.
\<close>

theorem adapter_outcome:
  assumes "map_of (tasks (todoTaskGraph s)) r = Some t"
  shows "(\<forall>iter event rest success.
            fst (exec (world s) (target t) (overrides t)) = Inr iter
            \<and> iter_next iter = (Inr event, rest) \<and> ev_value event = Some success
            \<longrightarrow> (\<exists>s'. runRoot exec s c r = Inr (s', c @ [task_id t])
                  \<and> map_of (results s') (task_id t) = Some (if success then Success else Failure)
                  \<and> runRoots exec (r # rs) s c = runRoots exec rs s' (c @ [task_id t])))
    \<and> (\<forall>err. (fst (exec (world s) (target t) (overrides t)) = Inl err
               \<or> (\<exists>iter rest. fst (exec (world s) (target t) (overrides t)) = Inr iter
                    \<and> iter_next iter = (Inl err, rest)))
            \<longrightarrow> (\<exists>s'. runRoot exec s c r = Inr (s', c)
                  \<and> map_of (results s') (task_id t) = Some Failure
                  \<and> LoggerError err \<in> set (trace s')
                  \<and> runRoots exec (r # rs) s c = runRoots exec rs s' c))
    \<and> (\<forall>s0. set (roots (todoTaskGraph s0)) \<subseteq> nodes (todoTaskGraph s0)
            \<longrightarrow> (\<exists>s'. runLoop exec s0 = Inr s'))"
proof (intro conjI allI impI)
  fix iter event rest success
  assume "fst (exec (world s) (target t) (overrides t)) = Inr iter
    \<and> iter_next iter = (Inr event, rest) \<and> ev_value event = Some success"
  then have "fst (exec (world s) (target t) (overrides t)) = Inr iter"
    "iter_next iter = (Inr event, rest)" "ev_value event = Some success"
    by simp_all
  from runRoot_event [where exec = exec and c = c, OF assms this]
  show "\<exists>s'. runRoot exec s c r = Inr (s', c @ [task_id t])
      \<and> map_of (results s') (task_id t) = Some (if success then Success else Failure)
      \<and> runRoots exec (r # rs) s c = runRoots exec rs s' (c @ [task_id t])"
    by (simp add: update_conv')
next
  fix err
  assume "fst (exec (world s) (target t) (overrides t)) = Inl err
    \<or> (\<exists>iter rest. fst (exec (world s) (target t) (overrides t)) = Inr iter
         \<and> iter_next iter = (Inl err, rest))"
  then have "fst (exec (world s) (target t) (overrides t)) = Inl err
       \<or> (\<exists>iter rest. fst (exec (world s) (target t) (overrides t)) = Inr iter
            \<and> iter_next iter = (Inl err, rest))
       \<or> (\<exists>iter event rest. fst (exec (world s) (target t) (overrides t)) = Inr iter
            \<and> iter_next iter = (Inr event, rest) \<and> ev_value event = None \<and> err = TypeError)"
    by blast
  from runRoot_thrown [where exec = exec and c = c, OF assms this]
  show "\<exists>s'. runRoot exec s c r = Inr (s', c)
      \<and> map_of (results s') (task_id t) = Some Failure
      \<and> LoggerError err \<in> set (trace s')
      \<and> runRoots exec (r # rs) s c = runRoots exec rs s' c"
    by (simp add: update_conv')
next
  fix s0 :: "('a, 'b, 'c) run_state"
  assume "set (roots (todoTaskGraph s0)) \<subseteq> nodes (todoTaskGraph s0)"
  then show "\<exists>s'. runLoop exec s0 = Inr s'" by (rule runLoop_total)
qed

theorem adapter_outcome_witness:
  "map_of (tasks (todoTaskGraph (initial_state [mk ''A'' ''fail'', mk ''B'' ''build''] graph_chain (0::nat)))) ''A''
     = Some (mk ''A'' ''fail'')
   \<and> (\<exists>s'. runRoot exec_yield (initial_state [mk ''A'' ''fail'', mk ''B'' ''build''] graph_chain (0::nat)) [] ''A''
             = Inr (s', [''A''])
          \<and> map_of (results s') ''A'' = Some Failure)
   \<and> (\<exists>s'. runRoot exec_raise (initial_state [mk ''A'' ''fail'', mk ''B'' ''build''] graph_chain (0::nat)) [] ''A''
             = Inr (s', [])
          \<and> map_of (results s') ''A'' = Some Failure
          \<and> LoggerError (ExecutorError ''boom'') \<in> set (trace s'))
   \<and> (\<exists>s'. runLoop exec_raise (initial_state [mk ''A'' ''fail'', mk ''B'' ''build''] graph_chain (0::nat))
             = Inr s')"
proof -
  let ?s = "initial_state [mk ''A'' ''fail'', mk ''B'' ''build''] graph_chain (0::nat)"
  have t: "map_of (tasks (todoTaskGraph ?s)) ''A'' = Some (mk ''A'' ''fail'')"
    by (simp add: initial_state_def graph_chain_def)
  have y: "fst (exec_yield (world ?s) (target (mk ''A'' ''fail'')) (overrides (mk ''A'' ''fail'')))
         = Inr [Inr (IteratorResult (Some False) True)]
       \<and> iter_next [Inr (IteratorResult (Some False) True)] = (Inr (IteratorResult (Some False) True), [])
       \<and> ev_value (IteratorResult (Some False) True) = Some False"
    by (simp add: exec_yield_def mk_def)
  have e: "fst (exec_raise (world ?s) (target (mk ''A'' ''fail'')) (overrides (mk ''A'' ''fail'')))
         = Inl (ExecutorError ''boom'')"
    by (simp add: exec_raise_def)
  have g: "set (roots (todoTaskGraph ?s)) \<subseteq> nodes (todoTaskGraph ?s)"
    by (simp add: initial_state_def graph_chain_def nodes_def Object_keys_def)
  note a = adapter_outcome [OF t, of exec_yield "[]" "[]"]
  note b = adapter_outcome [OF t, of exec_raise "[]" "[]"]
  from a [THEN conjunct1, rule_format, OF y]
  have 1: "\<exists>s'. runRoot exec_yield ?s [] ''A'' = Inr (s', [''A'']) \<and> map_of (results s') ''A'' = Some Failure"
    by (auto simp: mk_def)
  from b [THEN conjunct2, THEN conjunct1, rule_format, OF disjI1, OF e]
  have 2: "\<exists>s'. runRoot exec_raise ?s [] ''A'' = Inr (s', [])
          \<and> map_of (results s') ''A'' = Some Failure
          \<and> LoggerError (ExecutorError ''boom'') \<in> set (trace s')"
    by (auto simp: mk_def)
  from b [THEN conjunct2, THEN conjunct2, rule_format, OF g]
  have 3: "\<exists>s'. runLoop exec_raise ?s = Inr s'" .
  from t 1 2 3 show ?thesis by (simp only: simp_thms)
qed

text \<open>
  C6 (in the two-node graph where \<open>B\<close> depends on \<open>A\<close> and the run of \<open>A\<close> fails, \<open>B\<close> is
  still dispatched in a later round, and the result is \<open>A\<close>: \<^verbatim>\<open>'failure'\<close>, \<open>B\<close>: the status
  of its own run) does not hold of the code when the run of \<open>A\<close> fails by a rejection of
  the adapter. The rejection is caught before \<^verbatim>\<open>completed.push\<close>, so \<open>A\<close> gets \<^verbatim>\<open>'failure'\<close>
  but is never completed: the dependency list of \<open>B\<close> is never pruned, \<open>B\<close> is never
  dispatched and keeps \<^verbatim>\<open>'skipped'\<close>, while \<open>A\<close> is dispatched a second time. When the run
  of \<open>A\<close> fails by a first event whose success flag is false, the same graph gives what
  the claim says (in general: lemma \<open>two_node_run\<close>).
\<close>

theorem rejected_dependency_blocks_dependent:
  "fst (exec_raise 0 (target (mk ''A'' ''fail'')) (overrides (mk ''A'' ''fail'')))
     = Inl (ExecutorError ''boom'')
   \<and> (case runLoop exec_raise (initial_state [mk ''A'' ''fail'', mk ''B'' ''build''] graph_chain 0) of
         Inl err \<Rightarrow> False
       | Inr s \<Rightarrow> dispatched (trace s) = [''A'', ''A''])
   \<and> runAllTasks exec_raise [mk ''A'' ''fail'', mk ''B'' ''build''] graph_chain 0
       = Inr [(''A'', Failure), (''B'', Skipped)]
   \<and> (case runLoop exec_yield (initial_state [mk ''A'' ''fail'', mk ''B'' ''build''] graph_chain 0) of
         Inl err \<Rightarrow> False
       | Inr s \<Rightarrow> dispatched (trace s) = [''A'', ''B''])
   \<and> runAllTasks exec_yield [mk ''A'' ''fail'', mk ''B'' ''build''] graph_chain 0
       = Inr [(''A'', Failure), (''B'', Success)]"
  by code_simp

text \<open>
  C7. If every submitted task lies on a dependency cycle of a graph that keeps the
  roots invariant and has no roots outside the submitted tasks, the initial roots are
  empty: the loop makes one round (none for an empty task list), calls neither the
  executor nor the reporter, finds the size of \<^verbatim>\<open>todo\<close> unchanged and stops; the run
  returns the mapping in which every submitted task is \<^verbatim>\<open>'skipped'\<close>.
\<close>

theorem cycle_all_skipped:
  assumes "roots_invariant g" and "set (roots g) \<subseteq> task_id ` set ts"
    and "\<forall>t \<in> set ts. (task_id t, task_id t) \<in> (depRel g)\<^sup>+"
  shows "\<exists>s'. runLoop exec (initial_state ts g w) = Inr s'
    \<and> trace s' = [] \<and> world s' = w
    \<and> todo s' = remdups (map task_id ts)
    \<and> (ts \<noteq> [] \<longrightarrow> prevSize s' = length (todo s') \<and> todoTaskGraph s' = updateTaskGraph g [])
    \<and> runAllTasks exec ts g w = Inr (results s')
    \<and> fst ` set (results s') = task_id ` set ts
    \<and> (\<forall>t \<in> set ts. map_of (results s') (task_id t) = Some Skipped)"
proof -
  from assms have "roots g = []" by (rule cyclic_no_roots)
  note loop = runLoop_no_roots [OF this, of exec ts w]
  let ?s = "if ts = [] then initial_state ts g w
         else (initial_state ts g w)\<lparr>prevSize := length (remdups (map task_id ts)),
                                     todoTaskGraph := updateTaskGraph g []\<rparr>"
  have r: "results ?s = results (initial_state ts g w)" by simp
  have 1: "trace ?s = [] \<and> world ?s = w \<and> todo ?s = remdups (map task_id ts)"
    by (simp add: initial_state_def)
  have 2: "ts \<noteq> [] \<longrightarrow> prevSize ?s = length (todo ?s) \<and> todoTaskGraph ?s = updateTaskGraph g []"
    by (simp add: initial_state_def)
  have "continuedTasks ?s = []" by (simp add: initial_state_def)
  with loop have 3: "runAllTasks exec ts g w = Inr (results ?s)"
    by (simp add: runAllTasks_def)
  have 4: "fst ` set (results ?s) = task_id ` set ts"
    unfolding r by (rule keys_results_initial_state)
  have 5: "\<forall>t \<in> set ts. map_of (results ?s) (task_id t) = Some Skipped"
    unfolding r by (simp add: results_initial_state)
  from loop 1 2 3 4 5 show ?thesis by (intro exI [of _ ?s] conjI) (simp_all only:)
qed

theorem cycle_all_skipped_witness:
  "roots_invariant graph_cycle
   \<and> set (roots graph_cycle) \<subseteq> task_id ` set [mk ''A'' ''build'', mk ''B'' ''build'']
   \<and> (task_id (mk ''A'' ''build''), task_id (mk ''A'' ''build'')) \<in> (depRel graph_cycle)\<^sup>+
   \<and> (task_id (mk ''B'' ''build''), task_id (mk ''B'' ''build'')) \<in> (depRel graph_cycle)\<^sup>+
   \<and> runAllTasks exec_yield [mk ''A'' ''build'', mk ''B'' ''build''] graph_cycle 0
       = Inr [(''A'', Skipped), (''B'', Skipped)]"
proof -
  have 1: "roots_invariant graph_cycle"
    by (simp add: roots_invariant_def graph_cycle_def)
  have 2: "set (roots graph_cycle) \<subseteq> task_id ` set [mk ''A'' ''build'', mk ''B'' ''build'']"
    by (simp add: graph_cycle_def)
  have "(''A'', ''A'') \<in> (depRel graph_cycle)\<^sup>+" "(''B'', ''B'') \<in> (depRel graph_cycle)\<^sup>+"
    unfolding depRel_graph_cycle by (rule trancl_into_trancl [OF r_into_trancl]; simp)+
  then have 3: "\<forall>t \<in> set [mk ''A'' ''build'', mk ''B'' ''build''].
      (task_id t, task_id t) \<in> (depRel graph_cycle)\<^sup>+"
    by (simp add: mk_def)
  from cycle_all_skipped [OF 1 2 3, of exec_yield 0] obtain s' where
    "runLoop exec_yield (initial_state [mk ''A'' ''build'', mk ''B'' ''build''] graph_cycle 0) = Inr s'"
    and "runAllTasks exec_yield [mk ''A'' ''build'', mk ''B'' ''build''] graph_cycle 0 = Inr (results s')"
    and "trace s' = []"
    by blast
  moreover have "runAllTasks exec_yield [mk ''A'' ''build'', mk ''B'' ''build''] graph_cycle 0
       = Inr [(''A'', Skipped), (''B'', Skipped)]"
    by code_simp
  ultimately show ?thesis using 1 2 3 by simp
qed


text \<open>
  C9, as stated, fails: a completed id that is no key of \<^verbatim>\<open>graph.tasks\<close> is still removed
  from the dependency lists that mention it. In the graph of \<open>B\<close> alone, whose list
  mentions \<open>A\<close>, completing \<open>A\<close> empties the list and makes \<open>B\<close> a root.
\<close>

theorem updateTaskGraph_absent_counterexample:
  "''A'' \<notin> nodes graph_dangling
   \<and> deps_of graph_dangling ''B'' = [''A'']
   \<and> ''B'' \<in> nodes (updateTaskGraph graph_dangling [''A''])
   \<and> deps_of (updateTaskGraph graph_dangling [''A'']) ''B'' = []
   \<and> roots graph_dangling = []
   \<and> roots (updateTaskGraph graph_dangling [''A'']) = [''B'']"
  by (simp add: nodes_def Object_keys_def deps_of_def difference_def graph_dangling_def
      updateTaskGraph_def omit_names_def zipObject_def)

text \<open>
  C9, amended. If the completed list contains, at any position, an id \<open>x\<close> that is no key
  of \<^verbatim>\<open>graph.tasks\<close> and that \<^verbatim>\<open>_.omit\<close> reads as a property name (it consists of word
  characters, or has no dot and no bracket pair), the reducer returns a graph all the
  same; \<open>x\<close> removes no task, and every remaining dependency list is the one that the
  reduction without \<open>x\<close> gives, with the references to \<open>x\<close> removed: a list that does not
  mention \<open>x\<close> is left as it is, and a task whose list holds nothing but references to
  \<open>x\<close> becomes a root.
\<close>

theorem updateTaskGraph_absent_name:
  assumes "x \<notin> nodes g" and "isKey (tasks g) x"
  shows "tasks (updateTaskGraph_paths u g (c1 @ x # c2)) = tasks (updateTaskGraph_paths u g (c1 @ c2))
    \<and> (\<forall>k. map_of (dependencies (updateTaskGraph_paths u g (c1 @ x # c2))) k
             = map_option (filter (\<lambda>d. d \<noteq> x))
                 (map_of (dependencies (updateTaskGraph_paths u g (c1 @ c2))) k))
    \<and> roots (updateTaskGraph_paths u g (c1 @ x # c2))
        = filter (\<lambda>k. case map_of (dependencies (updateTaskGraph_paths u g (c1 @ c2))) k of
                         Some ds \<Rightarrow> filter (\<lambda>d. d \<noteq> x) ds = [] | None \<Rightarrow> False)
            (Object_keys (tasks (updateTaskGraph_paths u g (c1 @ c2))))"
proof -
  from assms(1) have "x \<notin> fst ` set (tasks g)"
    by (simp add: nodes_def Object_keys_def)
  from omit_absent [OF this assms(2)]
  have o: "omit u (tasks g) (c1 @ x # c2) = omit u (tasks g) (c1 @ c2)" .
  then have t: "tasks (updateTaskGraph_paths u g (c1 @ x # c2))
      = tasks (updateTaskGraph_paths u g (c1 @ c2))"
    by (simp add: tasks_updateTaskGraph_paths)
  have d: "map_of (dependencies (updateTaskGraph_paths u g (c1 @ x # c2))) k
             = map_option (filter (\<lambda>d. d \<noteq> x))
                 (map_of (dependencies (updateTaskGraph_paths u g (c1 @ c2))) k)" for k
    unfolding lookup_updateTaskGraph_paths o difference_absent by simp
  have "(case map_option (filter (\<lambda>d. d \<noteq> x)) m of Some ds \<Rightarrow> 0 = length ds | None \<Rightarrow> False)
      = (case m of Some ds \<Rightarrow> filter (\<lambda>d. d \<noteq> x) ds = [] | None \<Rightarrow> False)"
    for m :: "string list option"
    by (cases m) auto
  then have r: "roots (updateTaskGraph_paths u g (c1 @ x # c2))
        = filter (\<lambda>k. case map_of (dependencies (updateTaskGraph_paths u g (c1 @ c2))) k of
                         Some ds \<Rightarrow> filter (\<lambda>d. d \<noteq> x) ds = [] | None \<Rightarrow> False)
            (Object_keys (tasks (updateTaskGraph_paths u g (c1 @ c2))))"
    unfolding roots_updateTaskGraph_paths [of u g "c1 @ x # c2"] d t by simp
  from t d r show ?thesis by (simp only: simp_thms)
qed

theorem updateTaskGraph_absent_name_witness:
  "''X'' \<notin> nodes graph_three \<and> isKey (tasks graph_three) ''X''
   \<and> tasks (updateTaskGraph_paths unset_target graph_three [''A'', ''X''])
       = tasks (updateTaskGraph_paths unset_target graph_three [''A''])
   \<and> map_of (dependencies (updateTaskGraph_paths unset_target graph_three [''A''])) ''B'' = Some [''X'', ''C'']
   \<and> map_of (dependencies (updateTaskGraph_paths unset_target graph_three [''A'', ''X''])) ''B'' = Some [''C'']
   \<and> roots (updateTaskGraph_paths unset_target graph_three [''A'', ''X'']) = [''C'']"
proof -
  have 1: "''X'' \<notin> nodes graph_three"
    by (simp add: nodes_def graph_three_def Object_keys_def)
  have 2: "isKey (tasks graph_three) ''X''"
    by (simp add: isKey_def reIsPlainProp_def word_char_def)
  note th = updateTaskGraph_absent_name [OF 1 2, of unset_target "[''A'']" "[]"]
  have b: "map_of (dependencies (updateTaskGraph_paths unset_target graph_three [''A''])) ''B'' = Some [''X'', ''C'']"
    by code_simp
  have c: "map_of (dependencies (updateTaskGraph_paths unset_target graph_three [''A''])) ''C'' = Some []"
    by code_simp
  have ks: "Object_keys (tasks (updateTaskGraph_paths unset_target graph_three [''A''])) = [''B'', ''C'']"
    by code_simp
  from th [THEN conjunct1]
  have 3: "tasks (updateTaskGraph_paths unset_target graph_three [''A'', ''X''])
       = tasks (updateTaskGraph_paths unset_target graph_three [''A''])"
    by simp
  from th [THEN conjunct2, THEN conjunct1, rule_format, of "''B''"]
  have 4: "map_of (dependencies (updateTaskGraph_paths unset_target graph_three [''A'', ''X''])) ''B'' = Some [''C'']"
    by (simp add: b)
  from th [THEN conjunct2, THEN conjunct2]
  have 5: "roots (updateTaskGraph_paths unset_target graph_three [''A'', ''X'']) = [''C'']"
    by (simp add: ks b c)
  from 1 2 3 b 4 5 show ?thesis by (simp only: simp_thms)
qed

lemma empty_stream_failure:
  assumes "map_of (tasks (todoTaskGraph s)) r = Some t"
    and "fst (exec (world s) (target t) (overrides t)) = Inr iter"
    and "iter_next iter = (Inr (IteratorResult None True), rest)"
  shows "\<exists>s'. runRoot exec s c r = Inr (s', c)
            \<and> map_of (results s') (task_id t) = Some Failure
            \<and> LoggerError TypeError \<in> set (trace s')
            \<and> todoTaskGraph s' = todoTaskGraph s
            \<and> runRoots exec (r # rs) s c = runRoots exec rs s' c"
proof -
  have "fst (exec (world s) (target t) (overrides t)) = Inl TypeError
       \<or> (\<exists>iter rest. fst (exec (world s) (target t) (overrides t)) = Inr iter
            \<and> iter_next iter = (Inl TypeError, rest))
       \<or> (\<exists>iter event rest. fst (exec (world s) (target t) (overrides t)) = Inr iter
            \<and> iter_next iter = (Inr event, rest) \<and> ev_value event = None \<and> TypeError = TypeError)"
    using assms(2,3) by auto
  from runRoot_thrown [where exec = exec and c = c, OF assms(1) this]
  show ?thesis
    by (simp add: update_conv')
qed

text \<open>
  C10 (a stream that ends without a value: the task gets \<^verbatim>\<open>'failure'\<close>, is not added to
  \<^verbatim>\<open>completed\<close>, so it stays in the graph and its dependents never become roots, and the
  run continues) does not hold of the code in its middle part. The destructuring of the
  undefined value throws inside the \<^verbatim>\<open>try\<close>: the task gets \<^verbatim>\<open>'failure'\<close>, the error is
  logged, \<^verbatim>\<open>completed\<close> is left as it is and the \<^verbatim>\<open>for\<close> loop goes on (lemma
  \<open>empty_stream_failure\<close>). But the task is still a root of the reduced graph, and the
  next round dispatches it again. In the graph of the two chains, with an adapter whose
  first call resolves to a stream that ends at once and whose later calls yield success:
  round 1 gives \<open>A\<close> \<^verbatim>\<open>'failure'\<close> and completes \<open>C\<close>; round 2 dispatches \<open>A\<close> a second time,
  now with success, and \<open>D\<close>; round 3 dispatches \<open>B\<close>, the dependent of \<open>A\<close>. The status of
  \<open>A\<close> in the result is \<^verbatim>\<open>'success'\<close>.
\<close>

theorem empty_stream_task_dispatched_again:
  "fst (exec_empty_first 0 (target (mk ''A'' ''build'')) (overrides (mk ''A'' ''build''))) = Inr []
   \<and> iter_next [] = (Inr (IteratorResult None True), [])
   \<and> (case runRoot exec_empty_first
             (initial_state [mk ''A'' ''build'', mk ''B'' ''build'', mk ''C'' ''build'', mk ''D'' ''build'']
                graph_chains 0) [] ''A'' of
         Inl err \<Rightarrow> False
       | Inr (s, completed) \<Rightarrow> completed = [] \<and> map_of (results s) ''A'' = Some Failure
           \<and> dispatched (trace s) = [''A''] \<and> LoggerError TypeError \<in> set (trace s))
   \<and> (case runLoop exec_empty_first
             (initial_state [mk ''A'' ''build'', mk ''B'' ''build'', mk ''C'' ''build'', mk ''D'' ''build'']
                graph_chains 0) of
         Inl err \<Rightarrow> False
       | Inr s \<Rightarrow> dispatched (trace s) = [''A'', ''C'', ''A'', ''D'', ''B''])
   \<and> runAllTasks exec_empty_first
         [mk ''A'' ''build'', mk ''B'' ''build'', mk ''C'' ''build'', mk ''D'' ''build''] graph_chains 0
       = Inr [(''A'', Success), (''B'', Success), (''C'', Success), (''D'', Success)]"
  by code_simp

end
